theory Spec2Isabelle
  imports Main "HOL-Library.Word"
begin

unbundle bit_operations_syntax

section \<open>Errors and Python list indexing\<close>

text \<open>
  The sources raise a bare \<open>Exception()\<close> at every failure site.  Each site is one
  constructor here, so that a result tells which \<open>raise\<close> was taken:
  \<^item> \<open>DivisionByZero\<close>: \<open>__truediv__\<close> with a zero right operand;
  \<^item> \<open>InvalidOperand\<close>: \<open>log\<close> of the zero element;
  \<^item> \<open>IndexError\<close>: a table read outside the list (Python's own exception);
  \<^item> \<open>InvalidArgument\<close>: evaluating an empty polynomial, interpolating no point;
  \<^item> \<open>UnexpectedEOF i\<close>: \<open>Exception('Unexpected EOF while reading key %d' % i)\<close>
    in \<open>decode\<close>;
  \<^item> \<open>TypeError\<close>: \<open>ord\<close> applied to the empty result of a read (Python's own exception).
  The \<open>isinstance\<close> checks of the operators cannot fail on typed operands and have no
  constructor.
\<close>

datatype error =
    DivisionByZero
  | InvalidOperand
  | IndexError
  | InvalidArgument
  | UnexpectedEOF nat
  | TypeError

definition ebind :: "error + 'a \<Rightarrow> ('a \<Rightarrow> error + 'b) \<Rightarrow> error + 'b" where
  "ebind m f = (case m of Inl e \<Rightarrow> Inl e | Inr x \<Rightarrow> f x)"

fun emap :: "('a \<Rightarrow> error + 'b) \<Rightarrow> 'a list \<Rightarrow> error + 'b list" where
  "emap f [] = Inr []"
| "emap f (x # xs) = ebind (f x) (\<lambda>y. ebind (emap f xs) (\<lambda>ys. Inr (y # ys)))"

text \<open>Python's \<open>xs[i]\<close>: a negative index counts from the end, anything else outside raises.\<close>

definition getitem :: "'a list \<Rightarrow> int \<Rightarrow> error + 'a" where
  "getitem xs i =
     (if 0 \<le> i \<and> i < int (length xs) then Inr (xs ! nat i)
      else if i < 0 \<and> - int (length xs) \<le> i then Inr (xs ! nat (int (length xs) + i))
      else Inl IndexError)"

section \<open>GF256elt.py: the log/exp tables\<close>

text \<open>The class attributes \<open>__logtable\<close> and \<open>__exptable\<close>.\<close>

record tables =
  logtable :: "int list"
  exptable :: "int list"

text \<open>
  One iteration of the loop of \<open>generate_pplogexp_tables\<close>, for \<open>i\<close> in \<open>range(1, 256)\<close>.
  The indices written are \<open>i\<close> and a value masked with \<open>0xff\<close>, both inside the 256 entries.
\<close>

definition pp_step :: "int \<Rightarrow> tables \<Rightarrow> int \<Rightarrow> tables" where
  "pp_step prime_poly T i =
     (let e = exptable T ! nat (i - 1) * 2;
          e = (if e \<ge> 256 then e XOR prime_poly else e);
          e = e AND 0xff;
          ex = (exptable T)[nat i := e]
      in \<lparr>logtable = (logtable T)[nat (ex ! nat i) := i], exptable = ex\<rparr>)"

definition generate_pplogexp_tables :: "int \<Rightarrow> tables" where
  "generate_pplogexp_tables prime_poly =
     foldl (pp_step prime_poly)
       \<lparr>logtable = (replicate 256 0)[0 := (1 - 256) AND 0xff],
        exptable = (replicate 256 0)[0 := 1]\<rparr>
       [1..255]"

text \<open>
  One iteration of the loop of \<open>generate_logexp_tables\<close>, for \<open>exponent\<close> in \<open>range(255)\<close>;
  the state is the tables and the local \<open>exp\<close>.
\<close>

definition logexp_step :: "tables \<times> int \<Rightarrow> int \<Rightarrow> tables \<times> int" where
  "logexp_step s exponent =
     (let T = fst s;
          exp = snd s AND 0xff;
          ex = (exptable T)[nat exponent := exp];
          d = exp AND 0x80;
          exp = push_bit 1 exp;
          exp = (if d = 0x80 then exp XOR 0x1b else exp);
          exp = exp XOR ex ! nat exponent
      in (\<lparr>logtable = (logtable T)[nat (ex ! nat exponent) := exponent], exptable = ex\<rparr>, exp))"

definition generate_logexp_tables :: tables where
  "generate_logexp_tables =
     (let T = fst (foldl logexp_step
                (\<lparr>logtable = replicate 256 0, exptable = replicate 256 0\<rparr>, 1) [0..254])
      in \<lparr>logtable = (logtable T)[0 := 0],
          exptable = (exptable T)[255 := exptable T ! 0]\<rparr>)"

text \<open>
  The comment at the end of GF256elt.py: "Possible values of PP are 285 299 301 ...".
\<close>

definition possible_pp :: "int list" where
  "possible_pp = [285, 299, 301, 333, 351, 355, 357, 361, 369, 391, 397, 425, 451, 463, 487, 501]"

text \<open>The module ends with \<open>GF256elt.generate_pplogexp_tables(0x11d)\<close>: the tables in use.\<close>

definition gf_tables :: tables where
  "gf_tables = generate_pplogexp_tables 0x11d"

section \<open>GF256elt.py: field elements\<close>

datatype GF256elt = Elt (bytevalue: "8 word")

text \<open>\<open>__init__\<close>: \<open>self.__bytevalue = value % 256\<close>.\<close>

definition GF256elt :: "int \<Rightarrow> GF256elt" where
  "GF256elt v = Elt (word_of_int (v mod 256))"

text \<open>\<open>__int__\<close>.\<close>

definition to_int :: "GF256elt \<Rightarrow> int" where
  "to_int a = uint (bytevalue a)"

text \<open>\<open>__add__\<close> and \<open>__sub__\<close> (which calls \<open>__add__\<close>).\<close>

definition add :: "GF256elt \<Rightarrow> GF256elt \<Rightarrow> GF256elt" where
  "add a b = GF256elt (to_int a XOR to_int b)"

definition sub :: "GF256elt \<Rightarrow> GF256elt \<Rightarrow> GF256elt" where
  "sub a b = add a b"

text \<open>\<open>log\<close>: raises on zero, else reads the log table.\<close>

definition log :: "tables \<Rightarrow> GF256elt \<Rightarrow> error + int" where
  "log T a =
     (if to_int a = 0 then Inl InvalidOperand
      else getitem (logtable T) (to_int a))"

text \<open>\<open>__mul__\<close>.\<close>

definition mul :: "tables \<Rightarrow> GF256elt \<Rightarrow> GF256elt \<Rightarrow> error + GF256elt" where
  "mul T a b =
     (if to_int a = 0 \<or> to_int b = 0 then Inr (GF256elt 0)
      else ebind (log T a) (\<lambda>la. ebind (log T b) (\<lambda>lb.
        let p = (la + lb) mod 255
        in ebind (getitem (exptable T) p) (\<lambda>v. Inr (GF256elt v)))))"

text \<open>\<open>__truediv__\<close>.\<close>

definition truediv :: "tables \<Rightarrow> GF256elt \<Rightarrow> GF256elt \<Rightarrow> error + GF256elt" where
  "truediv T a b =
     (if to_int b = 0 then Inl DivisionByZero
      else if to_int a = 0 then Inr (GF256elt 0)
      else ebind (log T a) (\<lambda>la. ebind (log T b) (\<lambda>lb.
        let p = (la - lb) mod 255;
            p = (if p < 0 then p + 255 else p)
        in ebind (getitem (exptable T) p) (\<lambda>v. Inr (GF256elt v)))))"

section \<open>The generated tables are mutually inverse\<close>

definition inv_check :: "tables \<Rightarrow> int \<Rightarrow> bool" where
  "inv_check T lo =
     (length (logtable T) = 256 \<and> length (exptable T) = 256 \<and>
      list_all (\<lambda>(l, v). lo \<le> l \<and> l < lo + 255 \<and> exptable T ! nat l = v)
         (tl (zip (logtable T) [0..255])))"

lemma list_all_tl_zip_upto:
  assumes "list_all P (tl (zip xs [0..n]))" "int (length xs) = n + 1" "1 \<le> v" "v \<le> n"
  shows "P (xs ! nat v, v)"
proof -
  let ?zs = "zip xs [0..n]"
  have lz: "length ?zs = length xs"
    using assms(2) by simp
  have a: "nat v - 1 < length (tl ?zs)"
    using lz assms(2,3,4) by simp
  have b: "tl ?zs ! (nat v - 1) = ?zs ! nat v"
    using a assms(3) by (simp add: nth_tl)
  have c: "?zs ! nat v = (xs ! nat v, v)"
    using assms(2,3,4) by simp
  have "P (tl ?zs ! (nat v - 1))"
    using assms(1) a unfolding list_all_length by blast
  then show ?thesis
    unfolding b c .
qed

lemma inv_check_log:
  assumes "inv_check T lo" "1 \<le> v" "v \<le> 255"
  shows "lo \<le> logtable T ! nat v \<and> logtable T ! nat v < lo + 255 \<and>
         exptable T ! nat (logtable T ! nat v) = v"
proof -
  have "list_all (\<lambda>(l, v). lo \<le> l \<and> l < lo + 255 \<and> exptable T ! nat l = v)
          (tl (zip (logtable T) [0..255]))"
    using assms(1) unfolding inv_check_def by blast
  moreover have "int (length (logtable T)) = 255 + 1"
    using assms(1) unfolding inv_check_def by simp
  ultimately have "(\<lambda>(l, v). lo \<le> l \<and> l < lo + 255 \<and> exptable T ! nat l = v)
     (logtable T ! nat v, v)"
    using assms(2,3) by (rule list_all_tl_zip_upto)
  then show ?thesis
    by simp
qed

lemma inv_check_exp:
  assumes "inv_check T lo" "lo \<le> i" "i < lo + 255"
  shows "1 \<le> exptable T ! nat i \<and> exptable T ! nat i \<le> 255 \<and>
         logtable T ! nat (exptable T ! nat i) = i"
proof -
  define f where "f = (\<lambda>v. logtable T ! nat v)"
  define S where "S = {1..255::int}"
  define R where "R = {lo..<lo + 255}"
  have L: "lo \<le> f v \<and> f v < lo + 255 \<and> exptable T ! nat (f v) = v" if "v \<in> S" for v
    using inv_check_log [OF assms(1), of v] that unfolding f_def S_def by simp
  have inj: "inj_on f S"
  proof (rule inj_onI)
    fix x y assume "x \<in> S" "y \<in> S" "f x = f y"
    then show "x = y"
      using L [of x] L [of y] by metis
  qed
  have sub: "f ` S \<subseteq> R"
    using L unfolding R_def by auto
  have "card (f ` S) = card S"
    using inj by (rule card_image)
  also have "card S = card R"
    unfolding S_def R_def by simp
  finally have "f ` S = R"
    using sub unfolding R_def by (simp add: card_subset_eq)
  moreover have "i \<in> R"
    using assms(2,3) unfolding R_def by simp
  ultimately obtain v where v: "v \<in> S" "f v = i"
    by blast
  show ?thesis
    using L [OF v(1)] v unfolding S_def f_def by simp
qed

definition pp_check :: "tables \<Rightarrow> bool" where
  "pp_check T =
     (inv_check T 1 \<and> exptable T ! 0 = 1 \<and> exptable T ! 255 = 1 \<and> logtable T ! 1 = 255)"

definition logexp_check :: "tables \<Rightarrow> bool" where
  "logexp_check T = (inv_check T 0 \<and> exptable T ! 0 = 1 \<and> exptable T ! 255 = 1)"

text \<open>The generated tables pass the checks: each table is computed and read once.\<close>

lemma pp_check_285: "pp_check (generate_pplogexp_tables 285)"
  by code_simp

lemma pp_check_299: "pp_check (generate_pplogexp_tables 299)"
  by code_simp

lemma pp_check_301: "pp_check (generate_pplogexp_tables 301)"
  by code_simp

lemma pp_check_333: "pp_check (generate_pplogexp_tables 333)"
  by code_simp

lemma pp_check_351: "pp_check (generate_pplogexp_tables 351)"
  by code_simp

lemma pp_check_355: "pp_check (generate_pplogexp_tables 355)"
  by code_simp

lemma pp_check_357: "pp_check (generate_pplogexp_tables 357)"
  by code_simp

lemma pp_check_361: "pp_check (generate_pplogexp_tables 361)"
  by code_simp

lemma pp_check_369: "pp_check (generate_pplogexp_tables 369)"
  by code_simp

lemma pp_check_391: "pp_check (generate_pplogexp_tables 391)"
  by code_simp

lemma pp_check_397: "pp_check (generate_pplogexp_tables 397)"
  by code_simp

lemma pp_check_425: "pp_check (generate_pplogexp_tables 425)"
  by code_simp

lemma pp_check_451: "pp_check (generate_pplogexp_tables 451)"
  by code_simp

lemma pp_check_463: "pp_check (generate_pplogexp_tables 463)"
  by code_simp

lemma pp_check_487: "pp_check (generate_pplogexp_tables 487)"
  by code_simp

lemma pp_check_501: "pp_check (generate_pplogexp_tables 501)"
  by code_simp

lemma pp_checks: "pp \<in> set possible_pp \<Longrightarrow> pp_check (generate_pplogexp_tables pp)"
  using pp_check_285 pp_check_299 pp_check_301 pp_check_333 pp_check_351 pp_check_355 pp_check_357 pp_check_361
    pp_check_369 pp_check_391 pp_check_397 pp_check_425 pp_check_451 pp_check_463 pp_check_487 pp_check_501
  unfolding possible_pp_def by auto

lemma logexp_tables_check: "logexp_check generate_logexp_tables"
  by code_simp

lemma gf_tables_pp_check: "pp_check gf_tables"
  unfolding gf_tables_def by (rule pp_checks) (simp add: possible_pp_def)

lemma gf_tables_check: "inv_check gf_tables 1"
  using gf_tables_pp_check by (simp add: pp_check_def)

lemma gf_tables_ends:
  "exptable gf_tables ! 0 = 1" "exptable gf_tables ! 255 = 1" "logtable gf_tables ! 1 = 255"
  using gf_tables_pp_check by (simp_all add: pp_check_def)

section \<open>The field elements under the tables in use\<close>

lemma to_int_Elt: "to_int (Elt w) = uint w"
  by (simp add: to_int_def)

lemma GF256elt_uint: "GF256elt (uint w) = Elt w"
proof -
  have "uint w mod 256 = uint w"
    using uint_bounded [of w] by simp
  then show ?thesis
    by (simp add: GF256elt_def)
qed

lemma GF256elt_to_int: "GF256elt (to_int a) = a"
  by (cases a) (simp add: to_int_Elt GF256elt_uint)

lemma to_int_range: "0 \<le> to_int a \<and> to_int a < 256"
  using uint_bounded [of "bytevalue a"] by (simp add: to_int_def)

lemma to_int_GF256elt: "0 \<le> v \<Longrightarrow> v < 256 \<Longrightarrow> to_int (GF256elt v) = v"
  by (simp add: to_int_def GF256elt_def uint_word_of_int take_bit_eq_mod)

lemma to_int_inject: "to_int a = to_int b \<Longrightarrow> a = b"
  by (metis GF256elt_to_int)

lemma to_int_zero_iff: "to_int a = 0 \<longleftrightarrow> a = GF256elt 0"
  using to_int_inject [of a "GF256elt 0"] by (auto simp: to_int_GF256elt)

lemma add_Elt: "add (Elt a) (Elt b) = Elt (a XOR b)"
proof -
  have "uint a XOR uint b = uint (a XOR b)"
    by (simp add: uint_xor)
  then show ?thesis
    by (simp add: add_def to_int_Elt GF256elt_uint)
qed

definition dlog :: "GF256elt \<Rightarrow> nat" where
  "dlog a = nat (logtable gf_tables ! nat (to_int a))"

definition gexp :: "nat \<Rightarrow> GF256elt" where
  "gexp i = GF256elt (exptable gf_tables ! (i mod 255))"

lemma gf_tables_length:
  "length (logtable gf_tables) = 256" "length (exptable gf_tables) = 256"
  using gf_tables_check by (simp_all add: inv_check_def)

lemma exp_range:
  assumes "i < 255"
  shows "1 \<le> exptable gf_tables ! i \<and> exptable gf_tables ! i \<le> 255"
proof (cases "i = 0")
  case True
  then show ?thesis by (simp add: gf_tables_ends)
next
  case False
  then show ?thesis
    using inv_check_exp [OF gf_tables_check, of "int i"] assms by simp
qed

lemma to_int_gexp: "to_int (gexp i) = exptable gf_tables ! (i mod 255)"
  using exp_range [of "i mod 255"] by (simp add: gexp_def to_int_GF256elt)

lemma gexp_nonzero: "gexp i \<noteq> GF256elt 0"
  using exp_range [of "i mod 255"] to_int_gexp [of i] to_int_zero_iff [of "gexp i"] by simp

lemma gexp_mod: "gexp (i mod 255) = gexp i"
  by (simp add: gexp_def)

lemma dlog_range:
  assumes "a \<noteq> GF256elt 0"
  shows "1 \<le> dlog a \<and> dlog a \<le> 255 \<and> logtable gf_tables ! nat (to_int a) = int (dlog a)"
proof -
  have "1 \<le> to_int a" "to_int a \<le> 255"
    using assms to_int_range [of a] to_int_zero_iff [of a] by auto
  then show ?thesis
    using inv_check_log [OF gf_tables_check, of "to_int a"] by (auto simp: dlog_def)
qed

lemma gexp_dlog:
  assumes "a \<noteq> GF256elt 0"
  shows "gexp (dlog a) = a"
proof -
  have r: "1 \<le> to_int a" "to_int a \<le> 255"
    using assms to_int_range [of a] to_int_zero_iff [of a] by auto
  have e: "exptable gf_tables ! dlog a = to_int a"
    using inv_check_log [OF gf_tables_check, of "to_int a"] r by (simp add: dlog_def)
  show ?thesis
  proof (cases "dlog a = 255")
    case True
    then have "to_int a = 1"
      using e by (simp add: gf_tables_ends)
    then have "GF256elt (exptable gf_tables ! 0) = a"
      using GF256elt_to_int [of a] by (simp add: gf_tables_ends)
    then show ?thesis
      using True by (simp add: gexp_def)
  next
    case False
    then have "dlog a mod 255 = dlog a"
      using dlog_range [OF assms] by simp
    then show ?thesis
      using e GF256elt_to_int [of a] by (simp add: gexp_def)
  qed
qed

lemma dlog_gexp: "dlog (gexp i) mod 255 = i mod 255"
proof (cases "i mod 255 = 0")
  case True
  then have "to_int (gexp i) = 1"
    by (simp add: to_int_gexp gf_tables_ends)
  then show ?thesis
    using True gf_tables_ends(3) by (simp add: dlog_def)
next
  case False
  then have "logtable gf_tables ! nat (exptable gf_tables ! (i mod 255)) = int (i mod 255)"
    using inv_check_exp [OF gf_tables_check, of "int (i mod 255)"] by simp
  then show ?thesis
    by (simp add: dlog_def to_int_gexp)
qed

lemma getitem_in_range:
  "0 \<le> i \<Longrightarrow> i < int (length xs) \<Longrightarrow> getitem xs i = Inr (xs ! nat i)"
  by (simp add: getitem_def)

lemma log_nonzero:
  assumes "a \<noteq> GF256elt 0"
  shows "log gf_tables a = Inr (int (dlog a))"
proof -
  have "to_int a \<noteq> 0"
    using assms by (simp add: to_int_zero_iff)
  moreover have "getitem (logtable gf_tables) (to_int a) = Inr (logtable gf_tables ! nat (to_int a))"
    using to_int_range [of a] by (intro getitem_in_range) (simp_all add: gf_tables_length)
  ultimately show ?thesis
    using dlog_range [OF assms] by (simp add: log_def)
qed

lemma exptable_getitem:
  "getitem (exptable gf_tables) (int (i mod 255)) = Inr (exptable gf_tables ! (i mod 255))"
proof -
  have "i mod 255 < 256"
    by (rule less_trans [of _ 255]) simp_all
  then have "getitem (exptable gf_tables) (int (i mod 255))
      = Inr (exptable gf_tables ! nat (int (i mod 255)))"
    by (intro getitem_in_range) (simp_all add: gf_tables_length)
  then show ?thesis
    by simp
qed

lemma mul_nonzero:
  assumes "a \<noteq> GF256elt 0" "b \<noteq> GF256elt 0"
  shows "mul gf_tables a b = Inr (gexp (dlog a + dlog b))"
proof -
  have nz: "to_int a \<noteq> 0" "to_int b \<noteq> 0"
    using assms by (simp_all add: to_int_zero_iff)
  have "(int (dlog a) + int (dlog b)) mod 255 = int ((dlog a + dlog b) mod 255)"
    by (simp add: zmod_int)
  then show ?thesis
    using nz exptable_getitem [of "dlog a + dlog b"]
    by (simp add: mul_def ebind_def log_nonzero assms gexp_def)
qed

lemma mul_zero: "a = GF256elt 0 \<or> b = GF256elt 0 \<Longrightarrow> mul gf_tables a b = Inr (GF256elt 0)"
  by (auto simp: mul_def to_int_zero_iff)

lemma truediv_nonzero:
  assumes "a \<noteq> GF256elt 0" "b \<noteq> GF256elt 0"
  shows "truediv gf_tables a b = Inr (gexp (dlog a + 255 - dlog b))"
proof -
  have nz: "to_int a \<noteq> 0" "to_int b \<noteq> 0"
    using assms by (simp_all add: to_int_zero_iff)
  have le: "dlog b \<le> 255"
    using dlog_range [OF assms(2)] by simp
  have "(int (dlog a) - int (dlog b)) mod 255 = (int (dlog a) - int (dlog b) + 255) mod 255"
    by simp
  also have "int (dlog a) - int (dlog b) + 255 = int (dlog a + 255 - dlog b)"
    using le by simp
  finally have p: "(int (dlog a) - int (dlog b)) mod 255 = int ((dlog a + 255 - dlog b) mod 255)"
    by (simp add: zmod_int)
  show ?thesis
    using nz exptable_getitem [of "dlog a + 255 - dlog b"]
    by (simp add: truediv_def ebind_def log_nonzero assms gexp_def p)
qed

text \<open>Total versions of the two operators, on the tables in use.\<close>

definition gmul :: "GF256elt \<Rightarrow> GF256elt \<Rightarrow> GF256elt" where
  "gmul a b = (case mul gf_tables a b of Inr c \<Rightarrow> c | Inl e \<Rightarrow> GF256elt 0)"

definition gdiv :: "GF256elt \<Rightarrow> GF256elt \<Rightarrow> GF256elt" where
  "gdiv a b = (case truediv gf_tables a b of Inr c \<Rightarrow> c | Inl e \<Rightarrow> GF256elt 0)"

lemma mul_gmul: "mul gf_tables a b = Inr (gmul a b)"
  using mul_zero [of a b] mul_nonzero [of a b] by (cases "a = GF256elt 0 \<or> b = GF256elt 0") (auto simp: gmul_def)

lemma gmul_zero: "gmul (GF256elt 0) b = GF256elt 0" "gmul a (GF256elt 0) = GF256elt 0"
  by (simp_all add: gmul_def mul_zero)

lemma gmul_nonzero:
  "a \<noteq> GF256elt 0 \<Longrightarrow> b \<noteq> GF256elt 0 \<Longrightarrow> gmul a b = gexp (dlog a + dlog b)"
  by (simp add: gmul_def mul_nonzero)

lemma gmul_eq_zero_iff: "gmul a b = GF256elt 0 \<longleftrightarrow> a = GF256elt 0 \<or> b = GF256elt 0"
  by (metis gmul_zero gmul_nonzero gexp_nonzero)

lemma truediv_gdiv:
  "truediv gf_tables a b = (if b = GF256elt 0 then Inl DivisionByZero else Inr (gdiv a b))"
proof (cases "b = GF256elt 0")
  case True
  then show ?thesis by (simp add: truediv_def to_int_zero_iff)
next
  case b: False
  show ?thesis
  proof (cases "a = GF256elt 0")
    case True
    then show ?thesis
      using b by (simp add: truediv_def gdiv_def to_int_zero_iff)
  next
    case False
    then show ?thesis
      using b by (simp add: truediv_nonzero gdiv_def)
  qed
qed

lemma gdiv_zero: "gdiv a (GF256elt 0) = GF256elt 0" "gdiv (GF256elt 0) b = GF256elt 0"
  by (simp_all add: gdiv_def truediv_def to_int_zero_iff)

lemma gdiv_nonzero:
  "a \<noteq> GF256elt 0 \<Longrightarrow> b \<noteq> GF256elt 0 \<Longrightarrow> gdiv a b = gexp (dlog a + 255 - dlog b)"
  by (simp add: gdiv_def truediv_nonzero)

lemma gexp_cong: "i mod 255 = j mod 255 \<Longrightarrow> gexp i = gexp j"
  by (simp add: gexp_def)

lemma gexp_dlog_gexp_add: "gexp (dlog (gexp i) + j) = gexp (i + j)"
proof (rule gexp_cong)
  have "(dlog (gexp i) + j) mod 255 = (dlog (gexp i) mod 255 + j) mod 255"
    by (simp add: mod_add_left_eq)
  also have "\<dots> = (i mod 255 + j) mod 255"
    by (simp only: dlog_gexp)
  also have "\<dots> = (i + j) mod 255"
    by (simp add: mod_add_left_eq)
  finally show "(dlog (gexp i) + j) mod 255 = (i + j) mod 255" .
qed

lemma gmul_commute: "gmul a b = gmul b a"
  by (cases "a = GF256elt 0 \<or> b = GF256elt 0") (auto simp: gmul_zero gmul_nonzero add.commute)

lemma gmul_gexp: "b \<noteq> GF256elt 0 \<Longrightarrow> gmul (gexp i) b = gexp (i + dlog b)"
  by (simp add: gmul_nonzero gexp_nonzero gexp_dlog_gexp_add)

lemma gmul_assoc: "gmul (gmul a b) c = gmul a (gmul b c)"
proof (cases "a = GF256elt 0 \<or> b = GF256elt 0 \<or> c = GF256elt 0")
  case True
  then show ?thesis
    by (auto simp: gmul_zero)
next
  case False
  then have nz: "a \<noteq> GF256elt 0" "b \<noteq> GF256elt 0" "c \<noteq> GF256elt 0"
    by simp_all
  have l: "gmul (gmul a b) c = gexp (dlog a + dlog b + dlog c)"
    using nz by (simp add: gmul_nonzero [of a b] gmul_gexp)
  have "gmul a (gmul b c) = gmul (gexp (dlog b + dlog c)) a"
    using nz by (simp add: gmul_nonzero [of b c] gmul_commute)
  also have "\<dots> = gexp (dlog b + dlog c + dlog a)"
    using nz by (simp add: gmul_gexp)
  finally show ?thesis
    using l by (simp add: add.commute add.left_commute)
qed

lemma gexp_0: "gexp 0 = GF256elt 1"
  by (simp add: gexp_def gf_tables_ends)

lemma gexp_255: "gexp (i + 255) = gexp i"
  by (rule gexp_cong) simp

lemma gmul_one: "gmul (GF256elt 1) a = a"
proof (cases "a = GF256elt 0")
  case True
  then show ?thesis by (simp add: gmul_zero)
next
  case False
  have "gmul (gexp 0) a = gexp (0 + dlog a)"
    using False by (rule gmul_gexp)
  then show ?thesis
    using False by (simp add: gexp_0 gexp_dlog)
qed

lemma gdiv_gmul: 
  assumes "a \<noteq> GF256elt 0"
  shows "gmul a (gdiv b a) = b"
proof (cases "b = GF256elt 0")
  case True
  then show ?thesis by (simp add: gdiv_zero gmul_zero)
next
  case False
  have le: "dlog a \<le> 255"
    using dlog_range [OF assms] by simp
  have "gmul a (gdiv b a) = gmul (gexp (dlog b + 255 - dlog a)) a"
    using assms False by (simp add: gdiv_nonzero gmul_commute)
  also have "\<dots> = gexp (dlog b + 255 - dlog a + dlog a)"
    using assms by (rule gmul_gexp)
  also have "dlog b + 255 - dlog a + dlog a = dlog b + 255"
    using le by simp
  finally show ?thesis
    using False by (simp add: gexp_255 gexp_dlog)
qed

section \<open>Multiplication distributes over addition\<close>

text \<open>Doubling with reduction by 0x11d, on the byte.\<close>

definition dbl :: "GF256elt \<Rightarrow> GF256elt" where
  "dbl a = (let w = bytevalue a in
     Elt (if bit w 7 then push_bit 1 w XOR 0x1d else push_bit 1 w))"

definition xtime :: "int \<Rightarrow> int" where
  "xtime x = (let e = x * 2; e = (if e \<ge> 256 then e XOR 0x11d else e) in e AND 0xff)"

lemma GF256elt_word: "GF256elt v = Elt (word_of_int v)"
  by (simp add: GF256elt_def word_of_int_eq_iff take_bit_eq_mod)

lemma GF256elt_mask: "GF256elt (v AND 0xff) = GF256elt v"
proof -
  have "v AND 255 = take_bit 8 v"
    by (simp add: take_bit_eq_mask mask_eq_exp_minus_1)
  then show ?thesis
    by (simp add: GF256elt_word word_of_int_eq_iff)
qed

lemma word_of_int_xor: "(word_of_int (k XOR l) :: 8 word) = word_of_int k XOR word_of_int l"
  by (rule bit_word_eqI) (simp add: bit_word_of_int_iff bit_xor_iff)

lemma bit7: 
  assumes "0 \<le> x" "x < 256"
  shows "bit (word_of_int x :: 8 word) 7 \<longleftrightarrow> 128 \<le> x"
proof -
  have "odd (x div 128) \<longleftrightarrow> 128 \<le> x"
    using assms by presburger
  moreover have "bit (word_of_int x :: 8 word) 7 \<longleftrightarrow> bit x 7"
    by (simp add: bit_word_of_int_iff)
  moreover have "bit x 7 \<longleftrightarrow> odd (x div 2 ^ 7)"
    by (rule bit_iff_odd)
  ultimately show ?thesis
    by simp
qed

lemma dbl_xtime:
  assumes "0 \<le> x" "x < 256"
  shows "dbl (GF256elt x) = GF256elt (xtime x)"
proof -
  have p: "push_bit 1 (word_of_int x :: 8 word) = word_of_int (x * 2)"
    by (simp add: push_bit_eq_mult)
  have q: "(word_of_int (x * 2 XOR 0x11d) :: 8 word) = word_of_int (x * 2) XOR 0x1d"
  proof -
    have "(word_of_int 285 :: 8 word) = 29"
      by simp
    then show ?thesis
      by (simp only: word_of_int_xor)
  qed
  show ?thesis
    using bit7 [OF assms]
    by (simp add: dbl_def xtime_def Let_def GF256elt_mask) (simp add: GF256elt_word p q)
qed

lemma gf_tables_dbl:
  "list_all (\<lambda>(x, y). y = xtime x) (zip (exptable gf_tables) (tl (exptable gf_tables)))"
  by code_simp

lemma list_all_zip_tl:
  assumes "list_all P (zip xs (tl xs))" "Suc i < length xs"
  shows "P (xs ! i, xs ! Suc i)"
proof -
  have l: "i < length (zip xs (tl xs))"
    using assms(2) by simp
  have "zip xs (tl xs) ! i = (xs ! i, xs ! Suc i)"
    using assms(2) by (simp add: nth_tl)
  moreover have "P (zip xs (tl xs) ! i)"
    using assms(1) l unfolding list_all_length by blast
  ultimately show ?thesis
    by simp
qed

lemma exptable_Suc:
  assumes "i < 255"
  shows "GF256elt (exptable gf_tables ! Suc i) = dbl (GF256elt (exptable gf_tables ! i))"
proof -
  have "Suc i < length (exptable gf_tables)"
    using assms by (simp add: gf_tables_length)
  with gf_tables_dbl
  have "(\<lambda>(x, y). y = xtime x) (exptable gf_tables ! i, exptable gf_tables ! Suc i)"
    by (rule list_all_zip_tl)
  then have "exptable gf_tables ! Suc i = xtime (exptable gf_tables ! i)"
    by simp
  then show ?thesis
    using exp_range [OF assms] by (simp add: dbl_xtime)
qed

lemma gexp_Suc: "gexp (Suc i) = dbl (gexp i)"
proof (cases "Suc (i mod 255) = 255")
  case True
  then have "Suc i mod 255 = 0"
    by (metis mod_Suc)
  then have "gexp (Suc i) = GF256elt (exptable gf_tables ! Suc (i mod 255))"
    using True by (simp add: gexp_def gf_tables_ends)
  then show ?thesis
    using exptable_Suc [of "i mod 255"] by (simp add: gexp_def)
next
  case False
  then have "Suc i mod 255 = Suc (i mod 255)"
    by (metis mod_Suc)
  then show ?thesis
    using exptable_Suc [of "i mod 255"] by (simp add: gexp_def)
qed

lemma dbl_add: "dbl (add a b) = add (dbl a) (dbl b)"
proof -
  obtain x y where a: "a = Elt x" and b: "b = Elt y"
    by (metis GF256elt.exhaust)
  have p: "push_bit 1 (x XOR y) = push_bit 1 x XOR push_bit 1 y"
    by (simp add: push_bit_xor)
  have q: "bit (x XOR y) 7 \<longleftrightarrow> bit x 7 \<noteq> bit y 7"
    by (simp add: bit_xor_iff)
  show ?thesis
    unfolding a b add_Elt dbl_def Let_def GF256elt.sel p q
    by (auto simp: add_Elt xor.assoc xor.commute xor.left_commute)
qed

lemma dbl_zero: "dbl (GF256elt 0) = GF256elt 0"
  by (simp add: dbl_def GF256elt_def)

lemma gmul_gexp_1: "gmul (gexp (Suc 0)) a = dbl a"
proof (cases "a = GF256elt 0")
  case True
  then show ?thesis by (simp add: gmul_zero dbl_zero)
next
  case False
  then have "gmul (gexp (Suc 0)) a = gexp (Suc (dlog a))"
    by (simp add: gmul_gexp)
  also have "\<dots> = dbl (gexp (dlog a))"
    by (rule gexp_Suc)
  finally show ?thesis
    using False by (simp add: gexp_dlog)
qed

lemma gmul_gexp_pow: "gmul (gexp i) a = (dbl ^^ i) a"
proof (induction i)
  case 0
  then show ?case by (simp add: gexp_0 gmul_one)
next
  case (Suc i)
  have "gexp (Suc i) = gmul (gexp (Suc 0)) (gexp i)"
    unfolding gmul_gexp_1 by (rule gexp_Suc)
  then have "gmul (gexp (Suc i)) a = gmul (gexp (Suc 0)) (gmul (gexp i) a)"
    by (simp only: gmul_assoc)
  also have "\<dots> = dbl ((dbl ^^ i) a)"
    by (simp only: gmul_gexp_1 Suc)
  finally show ?case
    by simp
qed

lemma dbl_pow_add: "(dbl ^^ i) (add a b) = add ((dbl ^^ i) a) ((dbl ^^ i) b)"
  by (induction i) (simp_all add: dbl_add)

lemma add_self: "add a a = GF256elt 0"
  by (cases a) (simp add: add_Elt GF256elt_def)

lemma add_zero: "add (GF256elt 0) a = a"
  by (cases a) (simp add: add_Elt GF256elt_def)

lemma add_commute: "add a b = add b a"
  by (cases a; cases b) (simp add: add_Elt xor.commute)

lemma add_assoc: "add (add a b) c = add a (add b c)"
  by (cases a; cases b; cases c) (simp add: add_Elt xor.assoc)

lemma gmul_add: "gmul c (add a b) = add (gmul c a) (gmul c b)"
proof (cases "c = GF256elt 0")
  case True
  then show ?thesis by (simp add: gmul_zero add_zero)
next
  case False
  then have c: "c = gexp (dlog c)"
    by (simp add: gexp_dlog)
  have "gmul (gexp (dlog c)) (add a b)
      = add (gmul (gexp (dlog c)) a) (gmul (gexp (dlog c)) b)"
    by (simp only: gmul_gexp_pow dbl_pow_add)
  then show ?thesis
    using c by simp
qed

lemma one_neq_zero: "GF256elt 1 \<noteq> GF256elt 0"
  by (simp add: GF256elt_def)

instantiation GF256elt :: field
begin

definition zero_GF256elt :: GF256elt where
  "zero_GF256elt = GF256elt 0"

definition one_GF256elt :: GF256elt where
  "one_GF256elt = GF256elt 1"

definition plus_GF256elt :: "GF256elt \<Rightarrow> GF256elt \<Rightarrow> GF256elt" where
  "plus_GF256elt a b = add a b"

definition minus_GF256elt :: "GF256elt \<Rightarrow> GF256elt \<Rightarrow> GF256elt" where
  "minus_GF256elt a b = sub a b"

definition uminus_GF256elt :: "GF256elt \<Rightarrow> GF256elt" where
  "uminus_GF256elt a = a"

definition times_GF256elt :: "GF256elt \<Rightarrow> GF256elt \<Rightarrow> GF256elt" where
  "times_GF256elt a b = gmul a b"

definition divide_GF256elt :: "GF256elt \<Rightarrow> GF256elt \<Rightarrow> GF256elt" where
  "divide_GF256elt a b = gdiv a b"

definition inverse_GF256elt :: "GF256elt \<Rightarrow> GF256elt" where
  "inverse_GF256elt a = gdiv (GF256elt 1) a"

instance
proof
  fix a b c :: GF256elt
  show "a + b + c = a + (b + c)"
    by (simp add: plus_GF256elt_def add_assoc)
  show "a + b = b + a"
    by (simp add: plus_GF256elt_def add_commute)
  show "0 + a = a"
    by (simp add: plus_GF256elt_def zero_GF256elt_def add_zero)
  show "- a + a = 0"
    by (simp add: plus_GF256elt_def zero_GF256elt_def uminus_GF256elt_def add_self)
  show "a - b = a + - b"
    by (simp add: plus_GF256elt_def minus_GF256elt_def uminus_GF256elt_def sub_def)
  show "a * b * c = a * (b * c)"
    by (simp add: times_GF256elt_def gmul_assoc)
  show "a * b = b * a"
    by (simp add: times_GF256elt_def gmul_commute)
  show "1 * a = a"
    by (simp add: times_GF256elt_def one_GF256elt_def gmul_one)
  show "(a + b) * c = a * c + b * c"
    by (simp add: times_GF256elt_def plus_GF256elt_def gmul_commute [of _ c] gmul_add)
  show "(0::GF256elt) \<noteq> 1"
    using one_neq_zero by (simp add: zero_GF256elt_def one_GF256elt_def)
  show "a \<noteq> 0 \<Longrightarrow> inverse a * a = 1"
    by (simp add: times_GF256elt_def inverse_GF256elt_def zero_GF256elt_def one_GF256elt_def
        gmul_commute [of _ a] gdiv_gmul)
  show "a div b = a * inverse b"
  proof (cases "b = GF256elt 0")
    case True
    then show ?thesis
      by (simp add: divide_GF256elt_def times_GF256elt_def inverse_GF256elt_def gdiv_zero gmul_zero)
  next
    case False
    have "gmul b (gmul a (gdiv (GF256elt 1) b)) = gmul a (gmul b (gdiv (GF256elt 1) b))"
      by (metis gmul_assoc gmul_commute)
    also have "\<dots> = a"
      using False by (simp add: gdiv_gmul gmul_commute [of a] gmul_one)
    finally have "gmul b (gmul a (gdiv (GF256elt 1) b)) = gmul b (gdiv a b)"
      using False by (simp add: gdiv_gmul)
    then have "gmul (gdiv (GF256elt 1) b) (gmul b (gmul a (gdiv (GF256elt 1) b)))
               = gmul (gdiv (GF256elt 1) b) (gmul b (gdiv a b))"
      by simp
    moreover have "gmul (gdiv (GF256elt 1) b) (gmul b x) = x" for x
    proof -
      have "gmul (gdiv (GF256elt 1) b) (gmul b x) = gmul (gmul b (gdiv (GF256elt 1) b)) x"
        by (metis gmul_assoc gmul_commute)
      then show ?thesis
        using False by (simp add: gdiv_gmul gmul_one)
    qed
    ultimately show ?thesis
      by (simp add: divide_GF256elt_def times_GF256elt_def inverse_GF256elt_def)
  qed
  show "inverse (0::GF256elt) = 0"
    by (simp add: inverse_GF256elt_def zero_GF256elt_def gdiv_zero)
qed

end

section \<open>PGF256: polynomials over the field\<close>

text \<open>
  Modelled from the spec: the class \<open>PGF256\<close> (PGF256.py is imported by PySSSS.py but is not
  among the sources).  Sections 3 and 4.3: a polynomial is the ordered sequence of its
  coefficients \<open>[c0, c1, ..., cd]\<close>, not normalised; \<open>f\<close> evaluates by Horner's method,
  accumulating \<open>result = result * x + c\<close> from the highest coefficient to the lowest, and
  evaluating an empty polynomial fails with InvalidArgument.
\<close>

type_synonym PGF256 = "GF256elt list"

text \<open>
  Modelled from the spec: the loop of \<open>PGF256.f\<close> (section 4.3), \<open>result = result * x + c\<close>
  over the coefficients it is given, with the field operations of GF256elt.py.
\<close>

fun horner :: "tables \<Rightarrow> GF256elt \<Rightarrow> GF256elt \<Rightarrow> GF256elt list \<Rightarrow> error + GF256elt" where
  "horner T x result [] = Inr result"
| "horner T x result (c # cs) = ebind (mul T result x) (\<lambda>m. horner T x (add m c) cs)"

text \<open>
  Modelled from the spec: \<open>PGF256.f\<close> (section 4.3); the loop starts from zero and takes the
  coefficients from the highest to the lowest.
\<close>

definition PGF256_f :: "tables \<Rightarrow> PGF256 \<Rightarrow> GF256elt \<Rightarrow> error + GF256elt" where
  "PGF256_f T coeffs x =
     (if coeffs = [] then Inl InvalidArgument
      else horner T x (GF256elt 0) (rev coeffs))"

section \<open>PGF256Interpolator: Lagrange interpolation\<close>

text \<open>
  Modelled from the spec: the class \<open>PGF256Interpolator\<close> (PGF256Interpolator.py is imported
  by PySSSS.py but is not among the sources).  Section 4.4: \<open>interpolate(points)\<close> returns, in
  coefficient form, \<open>P(x) = \<Sum>i. y_i * \<Prod>j\<noteq>i. (x - x_j) / (x_i - x_j)\<close>; at least one point is
  required; coincident \<open>x\<close> values fail with the DivisionByZero of the field division.
  The polynomial arithmetic it needs is written out: coefficientwise sum, product by a
  scalar, product of two polynomials.
\<close>

text \<open>Modelled from the spec: the sum of two polynomials, coefficient by coefficient.\<close>

fun padd :: "PGF256 \<Rightarrow> PGF256 \<Rightarrow> PGF256" where
  "padd [] q = q"
| "padd p [] = p"
| "padd (a # p) (b # q) = add a b # padd p q"

text \<open>Modelled from the spec: the product of a polynomial by a field element.\<close>

definition pscale :: "tables \<Rightarrow> GF256elt \<Rightarrow> PGF256 \<Rightarrow> error + PGF256" where
  "pscale T c p = emap (mul T c) p"

text \<open>Modelled from the spec: the product of two polynomials in coefficient form.\<close>

fun pmul :: "tables \<Rightarrow> PGF256 \<Rightarrow> PGF256 \<Rightarrow> error + PGF256" where
  "pmul T [] q = Inr []"
| "pmul T (a # p) q =
     ebind (pscale T a q) (\<lambda>aq. ebind (pmul T p q) (\<lambda>pq. Inr (padd aq (GF256elt 0 # pq))))"

text \<open>
  Modelled from the spec: the factor \<open>(x - x_j) / (x_i - x_j)\<close> of section 4.4, both
  coefficients of \<open>x - x_j\<close> divided by \<open>x_i - x_j\<close>.
\<close>

definition lagrange_factor :: "tables \<Rightarrow> GF256elt \<Rightarrow> GF256elt \<Rightarrow> error + PGF256" where
  "lagrange_factor T xi xj =
     emap (\<lambda>c. truediv T c (sub xi xj)) [sub (GF256elt 0) xj, GF256elt 1]"

text \<open>
  Modelled from the spec: the product \<open>\<Prod>j\<noteq>i. (x - x_j) / (x_i - x_j)\<close> of section 4.4, over the
  \<open>x\<close> values of the other points.
\<close>

fun lagrange_basis :: "tables \<Rightarrow> GF256elt \<Rightarrow> GF256elt list \<Rightarrow> error + PGF256" where
  "lagrange_basis T xi [] = Inr [GF256elt 1]"
| "lagrange_basis T xi (xj # xs) =
     ebind (lagrange_factor T xi xj) (\<lambda>f.
       ebind (lagrange_basis T xi xs) (\<lambda>p. pmul T f p))"

text \<open>
  Modelled from the spec: the summand \<open>y_i * \<Prod>j\<noteq>i. (x - x_j) / (x_i - x_j)\<close> of section 4.4; the
  other points are those at the other positions of the list.
\<close>

definition lagrange_term :: "tables \<Rightarrow> (GF256elt \<times> GF256elt) list \<Rightarrow> nat \<Rightarrow> error + PGF256" where
  "lagrange_term T points i =
     ebind (lagrange_basis T (fst (points ! i)) (map fst (take i points @ drop (Suc i) points)))
       (\<lambda>b. pscale T (snd (points ! i)) b)"

text \<open>
  Modelled from the spec: \<open>PGF256Interpolator.interpolate\<close> (section 4.4), the sum of the
  summands.  The spec requires at least one point and says nothing of what happens with
  none; the model fails there.
\<close>

definition interpolate :: "tables \<Rightarrow> (GF256elt \<times> GF256elt) list \<Rightarrow> error + PGF256" where
  "interpolate T points =
     (if points = [] then Inl InvalidArgument
      else ebind (emap (lagrange_term T points) [0..<length points])
             (\<lambda>terms. Inr (foldr padd terms [])))"

section \<open>PySSSS.py: split and reconstruct\<close>

type_synonym byte = "8 word"

text \<open>
  \<open>random.randint(a, b)\<close> returns some integer of \<open>[a, b]\<close>.  The generator is a sequence of
  raw draws \<open>rnd\<close> and the number \<open>pos\<close> of draws made so far; a draw is brought into the
  range, so every sequence of results of \<open>randint\<close> is the behaviour of some \<open>rnd\<close>.
\<close>

type_synonym rng = "nat \<Rightarrow> nat"

definition randint :: "rng \<Rightarrow> nat \<Rightarrow> int \<Rightarrow> int \<Rightarrow> int" where
  "randint rnd pos a b = a + int (rnd pos mod nat (b - a + 1))"

text \<open>\<open>bytes([v])\<close> for a value of \<open>range(256)\<close>.\<close>

definition byte_of_int :: "int \<Rightarrow> byte" where
  "byte_of_int v = word_of_int v"

text \<open>\<open>pickRandomPolynomial\<close>: returns the polynomial and the new position of the generator.\<close>

definition pickRandomPolynomial :: "rng \<Rightarrow> nat \<Rightarrow> int \<Rightarrow> GF256elt \<Rightarrow> PGF256 \<times> nat" where
  "pickRandomPolynomial rnd pos degree v =
     (v # map (\<lambda>c. GF256elt (randint rnd c 0 255)) [pos..<pos + nat degree],
      pos + nat degree)"

text \<open>\<open>encodeByte\<close>: one \<open>[X, Y]\<close> pair for each of the \<open>n\<close> shares.\<close>

definition encodeByte ::
  "tables \<Rightarrow> rng \<Rightarrow> nat \<Rightarrow> byte \<Rightarrow> nat \<Rightarrow> int \<Rightarrow> int list \<Rightarrow> error + (byte list list \<times> nat)" where
  "encodeByte T rnd pos b n k picks =
     (let (P, pos') = pickRandomPolynomial rnd pos (k - 1) (GF256elt (uint b))
      in ebind (emap (\<lambda>i. let X = GF256elt (picks ! i)
                          in ebind (PGF256_f T P X) (\<lambda>Y.
                               Inr [byte_of_int (to_int X), byte_of_int (to_int Y)]))
                  [0..<n])
           (\<lambda>keys. Inr (keys, pos')))"

text \<open>
  The inner \<open>while True\<close> of \<open>encode\<close>: draw until the value is not yet picked.  It need
  not terminate, so not returning is the value \<open>None\<close>.
\<close>

partial_function (option) pick_loop :: "rng \<Rightarrow> nat \<Rightarrow> bool list \<Rightarrow> (int \<times> nat) option" where
  "pick_loop rnd pos picked =
     (let pick = randint rnd pos 1 255
      in if \<not> picked ! nat pick then Some (pick, Suc pos)
         else pick_loop rnd (Suc pos) picked)"

declare pick_loop.simps [code]

text \<open>The \<open>for i in range(0,n)\<close> around it; \<open>m\<close> counts the iterations left.\<close>

fun pick_all :: "rng \<Rightarrow> nat \<Rightarrow> nat \<Rightarrow> bool list \<Rightarrow> int list \<Rightarrow> (int list \<times> nat) option" where
  "pick_all rnd pos 0 picked picks = Some (picks, pos)"
| "pick_all rnd pos (Suc m) picked picks =
     (case pick_loop rnd pos picked of
        None \<Rightarrow> None
      | Some (pick, pos') \<Rightarrow> pick_all rnd pos' m (picked[nat pick := True]) (picks @ [pick]))"

text \<open>
  The loop over the bytes of the secret.  A sink is the list of the bytes written to it;
  \<open>outputs[i].write(keys[i])\<close> appends.
\<close>

fun encode_loop ::
  "tables \<Rightarrow> rng \<Rightarrow> nat \<Rightarrow> byte list \<Rightarrow> byte list list \<Rightarrow> nat \<Rightarrow> int \<Rightarrow> int list
   \<Rightarrow> error + byte list list" where
  "encode_loop T rnd pos [] outputs n k picks = Inr outputs"
| "encode_loop T rnd pos (b # stream) outputs n k picks =
     ebind (encodeByte T rnd pos b n k picks) (\<lambda>(keys, pos').
       encode_loop T rnd pos' stream (map (\<lambda>i. outputs ! i @ keys ! i) [0..<n]) n k picks)"

definition encode ::
  "tables \<Rightarrow> rng \<Rightarrow> nat \<Rightarrow> byte list \<Rightarrow> byte list list \<Rightarrow> int \<Rightarrow> (error + byte list list) option" where
  "encode T rnd pos stream outputs k =
     (let n = length outputs
      in case pick_all rnd pos n (replicate 256 False) [] of
           None \<Rightarrow> None
         | Some (picks, pos') \<Rightarrow> Some (encode_loop T rnd pos' stream outputs n k picks))"

text \<open>
  One round of reads of \<open>decode\<close>, from key \<open>i\<close> on: a key is the list of the bytes not yet
  read.  The round ends at the first key at end of stream (\<open>Eof i\<close>), fails where the
  second byte of a pair is missing (\<open>ord\<close> of an empty read), or returns the points and the
  keys after the reads.
\<close>

datatype round = Eof nat | Points "(GF256elt \<times> GF256elt) list" "byte list list"

fun read_round :: "nat \<Rightarrow> byte list list \<Rightarrow> error + round" where
  "read_round i [] = Inr (Points [] [])"
| "read_round i ([] # keys) = Inr (Eof i)"
| "read_round i ([x] # keys) = Inl TypeError"
| "read_round i ((x # y # rest) # keys) =
     ebind (read_round (Suc i) keys) (\<lambda>r.
       case r of
         Eof j \<Rightarrow> Inr (Eof j)
       | Points points keys' \<Rightarrow>
           Inr (Points ((GF256elt (uint x), GF256elt (uint y)) # points) (rest # keys')))"

lemma read_round_shorter:
  "read_round i keys = Inr (Points points keys') \<Longrightarrow> keys \<noteq> [] \<Longrightarrow>
   length (concat keys') < length (concat keys)"
proof (induction i keys arbitrary: points keys' rule: read_round.induct)
  case (4 i x y rest keys)
  then show ?case
    by (cases keys) (auto simp: ebind_def split: sum.splits round.splits)
qed simp_all

text \<open>
  \<open>decode\<close>: rounds of reads until a key is at end of stream.  It returns the bytes written
  to \<open>output\<close>.  Each round that goes on shortens the keys, and a round over no key at all
  stops at the interpolation of no point, so the loop terminates.
\<close>

function decode :: "tables \<Rightarrow> byte list list \<Rightarrow> byte list \<Rightarrow> error + byte list" where
  "decode T keys output =
     (case read_round 0 keys of
        Inl e \<Rightarrow> Inl e
      | Inr (Eof i) \<Rightarrow> if 0 \<noteq> i then Inl (UnexpectedEOF i) else Inr output
      | Inr (Points points keys') \<Rightarrow>
          (case interpolate T points of
             Inl e \<Rightarrow> Inl e
           | Inr P \<Rightarrow>
               (case PGF256_f T P (GF256elt 0) of
                  Inl e \<Rightarrow> Inl e
                | Inr b \<Rightarrow> decode T keys' (output @ [byte_of_int (to_int b)]))))"
  by pat_completeness auto
termination
proof (relation "measure (\<lambda>(T, keys, out). length (concat keys))")
  show "wf (measure (\<lambda>(T, keys, out). length (concat keys)))"
    by simp
next
  fix T keys out r points keys' P b
  assume r: "read_round 0 keys = Inr r" "r = Points points keys'"
    and "interpolate T points = Inr P"
  then have "keys \<noteq> []"
    by (auto simp: interpolate_def)
  then show "((T, keys', out @ [byte_of_int (to_int b)]), (T, keys, out))
      \<in> measure (\<lambda>(T, keys, out). length (concat keys))"
    using r by (simp add: read_round_shorter)
qed

section \<open>Claims about the tables and the field operations\<close>

text \<open>
  The invariant of the tables as a predicate: \<open>exp[log[v]] = v\<close> for every nonzero byte,
  \<open>log[exp[i]] = i\<close> for the 255 exponents from \<open>lo\<close> on, and \<open>exp[255] = exp[0] = 1\<close>.
  With \<open>lo = 0\<close> the exponents are \<open>[0,254]\<close>, with \<open>lo = 1\<close> they are \<open>[1,255]\<close>.
\<close>

definition mutual_inverse :: "tables \<Rightarrow> int \<Rightarrow> bool" where
  "mutual_inverse T lo =
     ((\<forall>v\<in>{1..255}. exptable T ! nat (logtable T ! nat v) = v) \<and>
      (\<forall>i\<in>{lo..lo + 254}. logtable T ! nat (exptable T ! nat i) = i) \<and>
      exptable T ! 255 = 1 \<and> exptable T ! 0 = 1)"

lemma inv_check_mutual_inverse:
  assumes "inv_check T lo" "exptable T ! 0 = 1" "exptable T ! 255 = 1"
  shows "mutual_inverse T lo"
  unfolding mutual_inverse_def
  using inv_check_log [OF assms(1)] inv_check_exp [OF assms(1)] assms(2,3) by simp

text \<open>
  C3 (amended).  \<open>generate_logexp_tables\<close> gives tables that are mutually inverse with the
  exponents \<open>[0,254]\<close>.  \<open>generate_pplogexp_tables\<close>, for each of the sixteen polynomials the
  module lists, gives tables with \<open>exp[log[v]] = v\<close> for every nonzero byte, \<open>exp[255] = exp[0] = 1\<close>
  and \<open>log[exp[i]] = i\<close> for the exponents \<open>[1,255]\<close>; at exponent 0 it has \<open>log[exp[0]] = 255\<close>,
  the same exponent modulo 255.
\<close>

theorem generated_tables_inverse:
  "(\<forall>pp\<in>set possible_pp.
      mutual_inverse (generate_pplogexp_tables pp) 1 \<and>
      logtable (generate_pplogexp_tables pp) ! nat (exptable (generate_pplogexp_tables pp) ! 0) = 255) \<and>
   mutual_inverse generate_logexp_tables 0"
proof (intro conjI ballI)
  fix pp assume "pp \<in> set possible_pp"
  then have c: "pp_check (generate_pplogexp_tables pp)"
    by (rule pp_checks)
  then show "mutual_inverse (generate_pplogexp_tables pp) 1"
    by (intro inv_check_mutual_inverse) (simp_all add: pp_check_def)
  show "logtable (generate_pplogexp_tables pp) ! nat (exptable (generate_pplogexp_tables pp) ! 0) = 255"
    using c by (simp add: pp_check_def)
next
  show "mutual_inverse generate_logexp_tables 0"
    using logexp_tables_check by (intro inv_check_mutual_inverse) (simp_all add: logexp_check_def)
qed

text \<open>The theorem at the polynomial in use, 0x11d = 285.\<close>

theorem generated_tables_inverse_witness:
  "285 \<in> set possible_pp \<and> mutual_inverse (generate_pplogexp_tables 285) 1 \<and>
   logtable (generate_pplogexp_tables 285) ! nat (exptable (generate_pplogexp_tables 285) ! 0) = 255 \<and>
   mutual_inverse generate_logexp_tables 0"
  using generated_tables_inverse by (simp add: possible_pp_def)

text \<open>
  C3 as stated fails: the loop of \<open>generate_pplogexp_tables\<close> runs to \<open>i = 255\<close>, where
  \<open>exp[255] = 1\<close>, and overwrites \<open>log[1]\<close> with 255, so \<open>log[exp[0]] = 255\<close> and not 0.
\<close>

theorem pp_tables_not_inverse_at_0:
  "logtable (generate_pplogexp_tables 0x11d) ! nat (exptable (generate_pplogexp_tables 0x11d) ! nat 0) = 255 \<and>
   \<not> mutual_inverse (generate_pplogexp_tables 0x11d) 0"
proof -
  have c: "pp_check (generate_pplogexp_tables 0x11d)"
    by (rule pp_check_285)
  then have e: "logtable (generate_pplogexp_tables 0x11d) ! nat (exptable (generate_pplogexp_tables 0x11d) ! nat 0) = 255"
    by (simp add: pp_check_def)
  moreover have "\<not> mutual_inverse (generate_pplogexp_tables 0x11d) 0"
  proof
    assume "mutual_inverse (generate_pplogexp_tables 0x11d) 0"
    then have "\<forall>i\<in>{0..0 + 254}. logtable (generate_pplogexp_tables 0x11d) !
        nat (exptable (generate_pplogexp_tables 0x11d) ! nat i) = i"
      unfolding mutual_inverse_def by blast
    moreover have "(0::int) \<in> {0..0 + 254}"
      by simp
    ultimately have "logtable (generate_pplogexp_tables 0x11d) !
        nat (exptable (generate_pplogexp_tables 0x11d) ! nat 0) = 0"
      by (rule bspec)
    then show False
      using e by simp
  qed
  ultimately show ?thesis
    by blast
qed

lemma getitem_table:
  "length xs = 256 \<Longrightarrow> 0 \<le> i \<Longrightarrow> i < 256 \<Longrightarrow> getitem xs i = Inr (xs ! nat i)"
  by (simp add: getitem_in_range)

text \<open>
  C5.  On tables of 256 entries, \<open>__mul__\<close> returns zero when an operand is zero and
  \<open>exp[(log[a] + log[b]) mod 255]\<close> otherwise.
\<close>

theorem mul_spec:
  assumes "length (logtable T) = 256" "length (exptable T) = 256"
  shows "mul T a b =
     (if to_int a = 0 \<or> to_int b = 0 then Inr (GF256elt 0)
      else Inr (GF256elt (exptable T !
             nat ((logtable T ! nat (to_int a) + logtable T ! nat (to_int b)) mod 255))))"
proof -
  have la: "getitem (logtable T) (to_int a) = Inr (logtable T ! nat (to_int a))"
    using assms(1) to_int_range [of a] by (simp add: getitem_table)
  have lb: "getitem (logtable T) (to_int b) = Inr (logtable T ! nat (to_int b))"
    using assms(1) to_int_range [of b] by (simp add: getitem_table)
  have e: "getitem (exptable T) (p mod 255) = Inr (exptable T ! nat (p mod 255))" for p :: int
    using assms(2) by (intro getitem_table) (simp_all add: pos_mod_bound [THEN less_trans])
  show ?thesis
    by (simp add: mul_def log_def ebind_def la lb e Let_def)
qed

theorem mul_spec_witness:
  "length (logtable gf_tables) = 256 \<and> length (exptable gf_tables) = 256 \<and>
   mul gf_tables (GF256elt 3) (GF256elt 7) = Inr (GF256elt 9) \<and>
   mul gf_tables (GF256elt 0) (GF256elt 7) = Inr (GF256elt 0)"
proof -
  have l: "length (logtable gf_tables) = 256" "length (exptable gf_tables) = 256"
    by (rule gf_tables_length)+
  have "mul gf_tables (GF256elt 3) (GF256elt 7) = 
     (if to_int (GF256elt 3) = 0 \<or> to_int (GF256elt 7) = 0 then Inr (GF256elt 0)
      else Inr (GF256elt (exptable gf_tables !
             nat ((logtable gf_tables ! nat (to_int (GF256elt 3)) + logtable gf_tables ! nat (to_int (GF256elt 7))) mod 255))))"
    by (rule mul_spec [OF l])
  also have "\<dots> = Inr (GF256elt 9)"
    by code_simp
  finally have a: "mul gf_tables (GF256elt 3) (GF256elt 7) = Inr (GF256elt 9)" .
  have b: "mul gf_tables (GF256elt 0) (GF256elt 7) = Inr (GF256elt 0)"
    using mul_spec [OF l, of "GF256elt 0" "GF256elt 7"] by (simp add: to_int_GF256elt)
  show ?thesis
    using l a b by simp
qed

text \<open>
  C6.  On tables of 256 entries, \<open>__truediv__\<close> fails exactly when the divisor is zero, with
  the error of that site; otherwise it returns zero for a zero dividend and
  \<open>exp[((log[a] - log[b]) mod 255 + 255) mod 255]\<close> for a nonzero one.  \<open>log\<close> fails exactly on
  the zero element, with the error of that site, and returns \<open>log[a]\<close> otherwise.
\<close>

theorem truediv_log_spec:
  assumes "length (logtable T) = 256" "length (exptable T) = 256"
  shows "truediv T a b =
     (if to_int b = 0 then Inl DivisionByZero
      else if to_int a = 0 then Inr (GF256elt 0)
      else Inr (GF256elt (exptable T !
             nat (((logtable T ! nat (to_int a) - logtable T ! nat (to_int b)) mod 255 + 255) mod 255)))) \<and>
     (isl (truediv T a b) \<longleftrightarrow> to_int b = 0) \<and>
     log T a = (if to_int a = 0 then Inl InvalidOperand else Inr (logtable T ! nat (to_int a))) \<and>
     (isl (log T a) \<longleftrightarrow> to_int a = 0)"
proof -
  have la: "getitem (logtable T) (to_int a) = Inr (logtable T ! nat (to_int a))"
    using assms(1) to_int_range [of a] by (simp add: getitem_table)
  have lb: "getitem (logtable T) (to_int b) = Inr (logtable T ! nat (to_int b))"
    using assms(1) to_int_range [of b] by (simp add: getitem_table)
  have e: "getitem (exptable T) (p mod 255) = Inr (exptable T ! nat (p mod 255))" for p :: int
    using assms(2) by (intro getitem_table) (simp_all add: pos_mod_bound [THEN less_trans])
  have n: "\<not> p mod 255 < 0" for p :: int
    by simp
  have d: "truediv T a b =
     (if to_int b = 0 then Inl DivisionByZero
      else if to_int a = 0 then Inr (GF256elt 0)
      else Inr (GF256elt (exptable T !
             nat (((logtable T ! nat (to_int a) - logtable T ! nat (to_int b)) mod 255 + 255) mod 255))))"
    by (simp add: truediv_def log_def ebind_def la lb e n Let_def)
  have l: "log T a = (if to_int a = 0 then Inl InvalidOperand else Inr (logtable T ! nat (to_int a)))"
    by (simp add: log_def la)
  show ?thesis
    unfolding d l by simp
qed

theorem truediv_log_spec_witness:
  "length (logtable gf_tables) = 256 \<and> length (exptable gf_tables) = 256 \<and>
   truediv gf_tables (GF256elt 9) (GF256elt 0) = Inl DivisionByZero \<and>
   truediv gf_tables (GF256elt 0) (GF256elt 7) = Inr (GF256elt 0) \<and>
   log gf_tables (GF256elt 0) = Inl InvalidOperand \<and>
   isl (truediv gf_tables (GF256elt 9) (GF256elt 0)) \<and>
   \<not> isl (truediv gf_tables (GF256elt 0) (GF256elt 7))"
proof -
  have l: "length (logtable gf_tables) = 256" "length (exptable gf_tables) = 256"
    by (rule gf_tables_length)+
  show ?thesis
    using l truediv_log_spec [OF l, of "GF256elt 9" "GF256elt 0"]
      truediv_log_spec [OF l, of "GF256elt 0" "GF256elt 7"]
    by (simp add: to_int_GF256elt)
qed

text \<open>
  C7.  Under the tables in use, for every nonzero \<open>a\<close> and every \<open>b\<close>, dividing \<open>b\<close> by \<open>a\<close>
  succeeds and multiplying the quotient by \<open>a\<close> gives \<open>b\<close> back.
\<close>

theorem mul_truediv_inverse:
  assumes "to_int a \<noteq> 0"
  shows "ebind (truediv gf_tables b a) (mul gf_tables a) = Inr b"
proof -
  have "a \<noteq> GF256elt 0"
    using assms by (simp add: to_int_zero_iff)
  then show ?thesis
    by (simp add: truediv_gdiv mul_gmul ebind_def gdiv_gmul)
qed

theorem mul_truediv_inverse_witness:
  "to_int (GF256elt 3) \<noteq> 0 \<and>
   ebind (truediv gf_tables (GF256elt 7) (GF256elt 3)) (mul gf_tables (GF256elt 3)) = Inr (GF256elt 7)"
proof -
  have "to_int (GF256elt 3) \<noteq> 0"
    by (simp add: to_int_GF256elt)
  then show ?thesis
    using mul_truediv_inverse [of "GF256elt 3" "GF256elt 7"] by simp
qed

section \<open>Claims about reconstruction\<close>

text \<open>
  C2.  The first stream is empty and the second holds one pair: only the first stream is at
  end of stream in the first round.  \<open>decode\<close> leaves the loop with \<open>i = 0\<close>, does not raise
  and returns the output written so far.
\<close>

theorem decode_first_stream_short:
  "decode gf_tables [[], [1, 2]] [] = Inr []"
  by simp

text \<open>The same lengths in the other order: the sibling path raises, naming key 1.\<close>

theorem decode_later_stream_short:
  "decode gf_tables [[1, 2], []] [] = Inl (UnexpectedEOF 1)"
  by (simp add: ebind_def)

text \<open>
  C10.  There are share streams, the first of odd length, on which \<open>decode\<close> fails with an
  error that is not the one of its length check: the read of the Y byte returns nothing
  and \<open>ord\<close> raises.
\<close>

theorem decode_odd_stream:
  "\<exists>keys e. odd (length (hd keys)) \<and> decode gf_tables keys [] = Inl e \<and>
     (\<forall>i. e \<noteq> UnexpectedEOF i)"
proof -
  have "decode gf_tables [[5]] [] = Inl TypeError"
    by simp
  then show ?thesis
    by (intro exI [of _ "[[5]]"] exI [of _ TypeError]) simp
qed

section \<open>The identifiers picked by encode\<close>

lemma randint_range: "a \<le> b \<Longrightarrow> a \<le> randint rnd pos a b \<and> randint rnd pos a b \<le> b"
proof -
  assume "a \<le> b"
  then have "0 < nat (b - a + 1)"
    by simp
  then have "rnd pos mod nat (b - a + 1) < nat (b - a + 1)"
    by (rule mod_less_divisor)
  then show ?thesis
    unfolding randint_def by linarith
qed

lemma pick_loop_Some:
  assumes "pick_loop rnd pos picked = Some r"
  shows "1 \<le> fst r \<and> fst r \<le> 255 \<and> \<not> picked ! nat (fst r)"
proof (rule pick_loop.raw_induct
    [where P = "\<lambda>rnd pos picked r. 1 \<le> fst r \<and> fst r \<le> 255 \<and> \<not> picked ! nat (fst r)",
     OF _ assms])
  fix loop :: "rng \<Rightarrow> nat \<Rightarrow> bool list \<Rightarrow> (int \<times> nat) option"
  fix rnd pos picked r
  assume IH: "\<And>rnd pos picked r. loop rnd pos picked = Some r \<Longrightarrow>
      1 \<le> fst r \<and> fst r \<le> 255 \<and> \<not> picked ! nat (fst r)"
  assume step: "(let pick = randint rnd pos 1 255
      in if \<not> picked ! nat pick then Some (pick, Suc pos)
         else loop rnd (Suc pos) picked) = Some r"
  show "1 \<le> fst r \<and> fst r \<le> 255 \<and> \<not> picked ! nat (fst r)"
  proof (cases "picked ! nat (randint rnd pos 1 255)")
    case True
    then have "loop rnd (Suc pos) picked = Some r"
      using step by (simp add: Let_def)
    then show ?thesis
      by (rule IH)
  next
    case False
    then have "r = (randint rnd pos 1 255, Suc pos)"
      using step by (simp add: Let_def)
    then show ?thesis
      using False randint_range [of 1 255 rnd pos] by simp
  qed
qed

text \<open>The invariant of the outer loop: \<open>picked\<close> marks exactly the values in \<open>picks\<close>.\<close>

definition picks_inv :: "bool list \<Rightarrow> int list \<Rightarrow> bool" where
  "picks_inv picked picks \<longleftrightarrow>
     length picked = 256 \<and> distinct picks \<and> set picks \<subseteq> {1..255} \<and>
     (\<forall>v\<in>{1..255}. picked ! nat v \<longleftrightarrow> v \<in> set picks)"

lemma picks_inv_init: "picks_inv (replicate 256 False) []"
  unfolding picks_inv_def
proof (intro conjI ballI)
  fix v :: int
  assume "v \<in> {1..255}"
  then have "nat v < 256"
    by auto
  then have "replicate 256 False ! nat v = False"
    by (rule nth_replicate)
  then show "replicate 256 False ! nat v \<longleftrightarrow> v \<in> set []"
    by (simp only: list.set empty_iff)
qed simp_all

lemma picks_inv_step:
  assumes "picks_inv picked picks" "1 \<le> pick" "pick \<le> 255" "\<not> picked ! nat pick"
  shows "picks_inv (picked[nat pick := True]) (picks @ [pick])"
proof -
  have l: "length picked = 256" and d: "distinct picks" and s: "set picks \<subseteq> {1..255}"
    and m: "\<And>v. 1 \<le> v \<Longrightarrow> v \<le> 255 \<Longrightarrow> picked ! nat v \<longleftrightarrow> v \<in> set picks"
    using assms(1) by (simp_all add: picks_inv_def)
  have new: "pick \<notin> set picks"
    using m [of pick] assms(2,3,4) by simp
  have "(picked[nat pick := True]) ! nat v \<longleftrightarrow> v \<in> set (picks @ [pick])"
    if "1 \<le> v" "v \<le> 255" for v
  proof (cases "v = pick")
    case True
    then show ?thesis
      using l assms(2,3) by simp
  next
    case False
    then have "nat v \<noteq> nat pick"
      using that assms(2) by simp
    then show ?thesis
      using m [OF that] False by simp
  qed
  then show ?thesis
    using l d s new assms(2,3) by (simp add: picks_inv_def)
qed

lemma pick_all_Some:
  assumes "pick_all rnd pos m picked picks = Some (picks', pos')" "picks_inv picked picks"
  shows "length picks' = length picks + m \<and> distinct picks' \<and> set picks' \<subseteq> {1..255}"
  using assms
proof (induction m arbitrary: pos picked picks)
  case 0
  then show ?case
    by (simp add: picks_inv_def)
next
  case (Suc m)
  from Suc.prems(1) obtain pick p where
    pl: "pick_loop rnd pos picked = Some (pick, p)" and
    rest: "pick_all rnd p m (picked[nat pick := True]) (picks @ [pick]) = Some (picks', pos')"
    by (auto split: option.splits)
  have "1 \<le> pick \<and> pick \<le> 255 \<and> \<not> picked ! nat pick"
    using pick_loop_Some [OF pl] by simp
  then have "picks_inv (picked[nat pick := True]) (picks @ [pick])"
    using Suc.prems(2) by (simp add: picks_inv_step)
  from Suc.IH [OF rest this] show ?case
    by simp
qed

lemma distinct_picks_bound:
  assumes "distinct picks" "set picks \<subseteq> {1..255::int}"
  shows "length picks \<le> 255"
proof -
  have "card (set picks) \<le> card {1..255::int}"
    using assms(2) by (intro card_mono) simp_all
  then show ?thesis
    using assms(1) by (simp add: distinct_card)
qed

lemma encode_picks:
  assumes "encode T rnd pos stream outputs k = Some r"
  obtains picks pos' where
    "pick_all rnd pos (length outputs) (replicate 256 False) [] = Some (picks, pos')"
    "r = encode_loop T rnd pos' stream outputs (length outputs) k picks"
    "length picks = length outputs" "distinct picks" "set picks \<subseteq> {1..255}"
    "length outputs \<le> 255"
proof -
  from assms obtain picks pos' where
    p: "pick_all rnd pos (length outputs) (replicate 256 False) [] = Some (picks, pos')" and
    r: "r = encode_loop T rnd pos' stream outputs (length outputs) k picks"
    by (auto simp: encode_def Let_def split: option.splits)
  have q: "length picks = length outputs \<and> distinct picks \<and> set picks \<subseteq> {1..255}"
    using pick_all_Some [OF p picks_inv_init] by simp
  then have "length picks \<le> 255"
    by (intro distinct_picks_bound) simp_all
  then show thesis
    using that p r q by simp
qed

text \<open>
  C9.  With more than 255 sinks \<open>encode\<close> does not return, whatever the generator draws: the
  values picked are pairwise distinct values of \<open>[1,255]\<close>, so a 256th search never ends.  No
  error is raised and nothing is written.
\<close>

theorem encode_too_many_outputs:
  assumes "length outputs > 255"
  shows "encode T rnd pos stream outputs k = None"
proof (rule ccontr)
  assume "encode T rnd pos stream outputs k \<noteq> None"
  then obtain r where "encode T rnd pos stream outputs k = Some r"
    by blast
  then have "length outputs \<le> 255"
    by (rule encode_picks)
  then show False
    using assms by simp
qed

theorem encode_too_many_outputs_witness:
  "length (replicate 256 ([] :: byte list)) > 255 \<and>
   encode gf_tables (\<lambda>i. i) 0 [0x41] (replicate 256 []) 2 = None"
proof -
  have "length (replicate 256 ([] :: byte list)) > 255"
    by simp
  then show ?thesis
    using encode_too_many_outputs [of "replicate 256 []" gf_tables "\<lambda>i. i" 0 "[0x41]" 2] by simp
qed

section \<open>The polynomial operations in the notation of the field\<close>

lemma mul_times: "mul gf_tables a b = Inr (a * b)"
  by (simp add: mul_gmul times_GF256elt_def)

lemma truediv_divide:
  "truediv gf_tables a b = (if b = 0 then Inl DivisionByZero else Inr (a div b))"
  by (simp add: truediv_gdiv divide_GF256elt_def zero_GF256elt_def)

lemma add_plus: "add a b = a + b"
  by (simp add: plus_GF256elt_def)

lemma sub_minus: "sub a b = a - b"
  by (simp add: minus_GF256elt_def)

lemma GF_add_self: "a + a = (0::GF256elt)"
  by (simp add: plus_GF256elt_def zero_GF256elt_def add_self)

lemma GF_add_eq_0: "a + b = (0::GF256elt) \<Longrightarrow> a = b"
proof -
  assume "a + b = 0"
  then have "a + b + b = b"
    by simp
  then show "a = b"
    by (simp add: add.assoc GF_add_self)
qed

lemma emap_Inr:
  "(\<And>x. x \<in> set xs \<Longrightarrow> f x = Inr (g x)) \<Longrightarrow> emap f xs = Inr (map g xs)"
  by (induction xs) (simp_all add: ebind_def)

text \<open>The value of a coefficient list at a point.\<close>

fun peval :: "GF256elt list \<Rightarrow> GF256elt \<Rightarrow> GF256elt" where
  "peval [] x = 0"
| "peval (c # cs) x = c + x * peval cs x"

lemma horner_foldl: "horner gf_tables x r cs = Inr (foldl (\<lambda>r c. r * x + c) r cs)"
  by (induction cs arbitrary: r) (simp_all add: mul_times ebind_def add_plus)

lemma foldr_peval: "foldr (\<lambda>c r. r * x + c) cs 0 = peval cs x"
  by (induction cs) (simp_all add: mult.commute add.commute)

lemma PGF256_f_peval:
  "PGF256_f gf_tables p x = (if p = [] then Inl InvalidArgument else Inr (peval p x))"
proof -
  have "foldl (\<lambda>r c. r * x + c) 0 (rev p) = peval p x"
    by (simp add: foldl_conv_foldr foldr_peval)
  then show ?thesis
    by (simp add: PGF256_f_def horner_foldl zero_GF256elt_def [symmetric])
qed

lemma peval_0: "peval (c # cs) 0 = c"
  by simp

lemma pscale_map: "pscale gf_tables c p = Inr (map ((*) c) p)"
  unfolding pscale_def by (rule emap_Inr) (rule mul_times)

lemma peval_scale: "peval (map ((*) c) p) x = c * peval p x"
  by (induction p) (simp_all add: algebra_simps)

lemma peval_padd: "peval (padd p q) x = peval p x + peval q x"
  by (induction p q rule: padd.induct) (simp_all add: add_plus algebra_simps)

lemma length_padd: "length (padd p q) = max (length p) (length q)"
  by (induction p q rule: padd.induct) simp_all

text \<open>The product of two coefficient lists, without the error plumbing.\<close>

fun pm :: "GF256elt list \<Rightarrow> GF256elt list \<Rightarrow> GF256elt list" where
  "pm [] q = []"
| "pm (a # p) q = padd (map ((*) a) q) (0 # pm p q)"

lemma pmul_pm: "pmul gf_tables p q = Inr (pm p q)"
  by (induction p) (simp_all add: pscale_map ebind_def zero_GF256elt_def)

lemma peval_pm: "peval (pm p q) x = peval p x * peval q x"
  by (induction p) (simp_all add: peval_padd peval_scale algebra_simps)

lemma length_pm_linear: "q \<noteq> [] \<Longrightarrow> length (pm [a, b] q) = Suc (length q)"
  by (cases q) (simp_all add: length_padd)

section \<open>Interpolation passes through its points\<close>

definition lfactor :: "GF256elt \<Rightarrow> GF256elt \<Rightarrow> GF256elt list" where
  "lfactor xi xj = [(0 - xj) div (xi - xj), 1 div (xi - xj)]"

lemma lagrange_factor_eq:
  "lagrange_factor gf_tables xi xj =
     (if xi = xj then Inl DivisionByZero else Inr (lfactor xi xj))"
  by (simp add: lagrange_factor_def truediv_divide sub_minus ebind_def lfactor_def
      zero_GF256elt_def [symmetric] one_GF256elt_def [symmetric])

lemma peval_lfactor: "peval (lfactor xi xj) x = (x - xj) div (xi - xj)"
proof -
  have "peval (lfactor xi xj) x = (0 - xj) div (xi - xj) + x div (xi - xj)"
    by (simp add: lfactor_def)
  also have "\<dots> = (0 - xj + x) div (xi - xj)"
    by (simp only: add_divide_distrib)
  finally show ?thesis
    by simp
qed

fun lbasis :: "GF256elt \<Rightarrow> GF256elt list \<Rightarrow> GF256elt list" where
  "lbasis xi [] = [1]"
| "lbasis xi (xj # xs) = pm (lfactor xi xj) (lbasis xi xs)"

lemma lagrange_basis_eq:
  "lagrange_basis gf_tables xi xs =
     (if xi \<in> set xs then Inl DivisionByZero else Inr (lbasis xi xs))"
  by (induction xs)
    (auto simp: lagrange_factor_eq ebind_def pmul_pm one_GF256elt_def)

lemma length_lbasis: "length (lbasis xi xs) = Suc (length xs)"
proof (induction xs)
  case Nil
  show ?case by simp
next
  case (Cons xj xs)
  then have "lbasis xi xs \<noteq> []"
    by auto
  then have "length (pm [(0 - xj) div (xi - xj), 1 div (xi - xj)] (lbasis xi xs))
      = Suc (length (lbasis xi xs))"
    by (rule length_pm_linear)
  then show ?case
    by (simp only: lbasis.simps lfactor_def Cons length_Cons)
qed

lemma peval_lbasis_Cons:
  "peval (lbasis xi (xj # xs)) x = (x - xj) div (xi - xj) * peval (lbasis xi xs) x"
  by (simp only: lbasis.simps peval_pm peval_lfactor)

lemma peval_lbasis_self: "xi \<notin> set xs \<Longrightarrow> peval (lbasis xi xs) xi = 1"
proof (induction xs)
  case Nil
  show ?case by simp
next
  case (Cons xj xs)
  then have "xi - xj \<noteq> 0" "peval (lbasis xi xs) xi = 1"
    by simp_all
  then show ?case
    by (simp only: peval_lbasis_Cons) simp
qed

lemma peval_lbasis_other: "xk \<in> set xs \<Longrightarrow> peval (lbasis xi xs) xk = 0"
proof (induction xs)
  case Nil
  then show ?case by simp
next
  case (Cons xj xs)
  show ?case
  proof (cases "xk = xj")
    case True
    then show ?thesis
      by (simp only: peval_lbasis_Cons) simp
  next
    case False
    then have "peval (lbasis xi xs) xk = 0"
      using Cons by simp
    then show ?thesis
      by (simp only: peval_lbasis_Cons) simp
  qed
qed

definition others :: "(GF256elt \<times> GF256elt) list \<Rightarrow> nat \<Rightarrow> GF256elt list" where
  "others points i = map fst (take i points @ drop (Suc i) points)"

lemma map_fst_split:
  assumes "i < length points"
  shows "map fst points = map fst (take i points) @ fst (points ! i) # map fst (drop (Suc i) points)"
proof -
  have "points = take i points @ points ! i # drop (Suc i) points"
    using assms by (rule id_take_nth_drop)
  then have "map fst points = map fst (take i points @ points ! i # drop (Suc i) points)"
    by simp
  then show ?thesis
    by simp
qed

lemma others_self:
  assumes "distinct (map fst points)" "i < length points"
  shows "fst (points ! i) \<notin> set (others points i)"
  using assms(1) unfolding map_fst_split [OF assms(2)] others_def by auto

lemma others_other:
  assumes "distinct (map fst points)" "i < length points" "k < length points" "k \<noteq> i"
  shows "fst (points ! k) \<in> set (others points i)"
proof -
  have "fst (points ! k) \<in> set (map fst points)"
    using assms(3) by simp
  moreover have "fst (points ! k) \<noteq> fst (points ! i)"
    using assms by (simp add: distinct_conv_nth)
  ultimately show ?thesis
    unfolding map_fst_split [OF assms(2)] others_def by auto
qed

lemma length_others: "i < length points \<Longrightarrow> Suc (length (others points i)) = length points"
  by (simp add: others_def)

definition lterm :: "(GF256elt \<times> GF256elt) list \<Rightarrow> nat \<Rightarrow> GF256elt list" where
  "lterm points i = map ((*) (snd (points ! i))) (lbasis (fst (points ! i)) (others points i))"

lemma lagrange_term_eq:
  assumes "distinct (map fst points)" "i < length points"
  shows "lagrange_term gf_tables points i = Inr (lterm points i)"
  using others_self [OF assms]
  by (simp add: lagrange_term_def lagrange_basis_eq ebind_def pscale_map lterm_def others_def)

lemma length_lterm: "i < length points \<Longrightarrow> length (lterm points i) = length points"
  by (simp add: lterm_def length_lbasis length_others)

lemma peval_lterm:
  assumes "distinct (map fst points)" "i < length points" "k < length points"
  shows "peval (lterm points i) (fst (points ! k)) = (if i = k then snd (points ! k) else 0)"
proof (cases "i = k")
  case True
  then show ?thesis
    using others_self [OF assms(1,2)] by (simp add: lterm_def peval_scale peval_lbasis_self)
next
  case False
  then show ?thesis
    using others_other [OF assms(1,2,3)]
    by (simp add: lterm_def peval_scale peval_lbasis_other)
qed

lemma peval_foldr_padd: "peval (foldr padd ts []) x = sum_list (map (\<lambda>t. peval t x) ts)"
  by (induction ts) (simp_all add: peval_padd)

lemma length_foldr_padd:
  "(\<And>t. t \<in> set ts \<Longrightarrow> length t \<le> n) \<Longrightarrow> length (foldr padd ts []) \<le> n"
  by (induction ts) (simp_all add: length_padd)

lemma sum_list_no_delta:
  "n \<le> k \<Longrightarrow> sum_list (map (\<lambda>i. if i = k then (y::GF256elt) else 0) [0..<n]) = 0"
  by (induction n) simp_all

lemma sum_list_delta:
  "k < n \<Longrightarrow> sum_list (map (\<lambda>i. if i = k then (y::GF256elt) else 0) [0..<n]) = y"
proof (induction n)
  case 0
  then show ?case by simp
next
  case (Suc n)
  show ?case
  proof (cases "k = n")
    case True
    have "sum_list (map (\<lambda>i. if i = k then y else 0) [0..<n]) = 0"
      using True by (intro sum_list_no_delta) simp
    then show ?thesis
      using True by simp
  next
    case False
    then show ?thesis
      using Suc by simp
  qed
qed

definition lagrange :: "(GF256elt \<times> GF256elt) list \<Rightarrow> GF256elt list" where
  "lagrange points = foldr padd (map (lterm points) [0..<length points]) []"

lemma interpolate_eq:
  assumes "distinct (map fst points)" "points \<noteq> []"
  shows "interpolate gf_tables points = Inr (lagrange points)"
proof -
  have "emap (lagrange_term gf_tables points) [0..<length points]
      = Inr (map (lterm points) [0..<length points])"
    by (rule emap_Inr) (simp add: lagrange_term_eq [OF assms(1)])
  then show ?thesis
    using assms(2) by (simp add: interpolate_def ebind_def lagrange_def)
qed

lemma length_lagrange: "length (lagrange points) \<le> length points"
  unfolding lagrange_def by (rule length_foldr_padd) (auto simp: length_lterm)

lemma peval_lagrange:
  assumes "distinct (map fst points)" "k < length points"
  shows "peval (lagrange points) (fst (points ! k)) = snd (points ! k)"
proof -
  have "map (\<lambda>t. peval t (fst (points ! k))) (map (lterm points) [0..<length points])
      = map (\<lambda>i. if i = k then snd (points ! k) else 0) [0..<length points]"
    using assms by (simp add: peval_lterm)
  then show ?thesis
    using assms(2) by (simp only: lagrange_def peval_foldr_padd sum_list_delta)
qed

section \<open>A polynomial with as many roots as coefficients vanishes\<close>

fun quot :: "GF256elt \<Rightarrow> GF256elt list \<Rightarrow> GF256elt list" where
  "quot a [] = []"
| "quot a [c] = []"
| "quot a (c # c' # cs) = peval (c' # cs) a # quot a (c' # cs)"

lemma length_quot: "length (quot a p) = length p - 1"
  by (induction a p rule: quot.induct) simp_all

lemma peval_quot: "peval p x = peval p a + (x - a) * peval (quot a p) x"
proof (induction a p rule: quot.induct)
  case (3 a c c' cs)
  have "peval (c # c' # cs) x = c + x * peval (c' # cs) x"
    by simp
  also have "\<dots> = c + x * (peval (c' # cs) a + (x - a) * peval (quot a (c' # cs)) x)"
    using 3 by simp
  also have "\<dots> = peval (c # c' # cs) a + (x - a) * peval (quot a (c # c' # cs)) x"
    by (simp add: algebra_simps)
  finally show ?case .
qed simp_all

lemma roots_vanish:
  assumes "length p \<le> length xs" "distinct xs" "\<And>x. x \<in> set xs \<Longrightarrow> peval p x = 0"
  shows "peval p y = 0"
  using assms
proof (induction xs arbitrary: p y)
  case Nil
  then show ?case by simp
next
  case (Cons a xs)
  have pa: "peval p a = 0"
    using Cons.prems(3) by simp
  have "peval (quot a p) z = 0" for z
  proof (rule Cons.IH)
    show "length (quot a p) \<le> length xs"
      using Cons.prems(1) by (simp add: length_quot)
    show "distinct xs"
      using Cons.prems(2) by simp
    fix x assume x: "x \<in> set xs"
    then have "peval p x = 0" "x \<noteq> a"
      using Cons.prems(2,3) by auto
    then show "peval (quot a p) x = 0"
      using peval_quot [of p x a] pa by simp
  qed
  then show ?case
    using peval_quot [of p y a] pa by simp
qed

lemma interpolation_unique:
  assumes "length p \<le> length xs" "length q \<le> length xs" "distinct xs"
    "\<And>x. x \<in> set xs \<Longrightarrow> peval p x = peval q x"
  shows "peval p y = peval q y"
proof -
  have "peval (padd p q) y = 0"
  proof (rule roots_vanish [of _ xs])
    show "length (padd p q) \<le> length xs"
      using assms(1,2) by (simp add: length_padd)
    show "distinct xs"
      by (rule assms(3))
    fix x assume "x \<in> set xs"
    then show "peval (padd p q) x = 0"
      using assms(4) by (simp add: peval_padd GF_add_self)
  qed
  then have "peval p y + peval q y = 0"
    by (simp only: peval_padd)
  then show ?thesis
    by (rule GF_add_eq_0)
qed

text \<open>Interpolating the values of a polynomial at as many points as it has coefficients
  gives a polynomial with the same values everywhere.\<close>

lemma interpolate_recovers:
  assumes "distinct xs" "xs \<noteq> []" "length p \<le> length xs"
  shows "interpolate gf_tables (map (\<lambda>x. (x, peval p x)) xs)
           = Inr (lagrange (map (\<lambda>x. (x, peval p x)) xs)) \<and>
         peval (lagrange (map (\<lambda>x. (x, peval p x)) xs)) y = peval p y"
proof -
  let ?pts = "map (\<lambda>x. (x, peval p x)) xs"
  have fst: "map fst ?pts = xs"
    by (simp add: comp_def)
  have d: "distinct (map fst ?pts)"
    using assms(1) by (simp only: fst)
  have i: "interpolate gf_tables ?pts = Inr (lagrange ?pts)"
    using d assms(2) by (intro interpolate_eq) simp_all
  have "peval (lagrange ?pts) y = peval p y"
  proof (rule interpolation_unique [of _ xs])
    show "length (lagrange ?pts) \<le> length xs"
      using length_lagrange [of ?pts] by simp
    show "length p \<le> length xs" "distinct xs"
      by (rule assms)+
    fix x assume "x \<in> set xs"
    then obtain k where k: "k < length xs" "xs ! k = x"
      by (auto simp: in_set_conv_nth)
    then have "peval (lagrange ?pts) (fst (?pts ! k)) = snd (?pts ! k)"
      by (intro peval_lagrange [OF d]) simp
    then show "peval (lagrange ?pts) x = peval p x"
      using k by simp
  qed
  then show ?thesis
    using i by simp
qed

section \<open>What encode writes\<close>

text \<open>The polynomials \<open>encode\<close> draws, one for each byte of the secret.\<close>

fun polys :: "rng \<Rightarrow> nat \<Rightarrow> int \<Rightarrow> byte list \<Rightarrow> PGF256 list" where
  "polys rnd pos k [] = []"
| "polys rnd pos k (b # bs) =
     fst (pickRandomPolynomial rnd pos (k - 1) (GF256elt (uint b))) #
     polys rnd (snd (pickRandomPolynomial rnd pos (k - 1) (GF256elt (uint b)))) k bs"

text \<open>The bytes of the share with identifier \<open>x\<close>: one pair for each polynomial.\<close>

definition share :: "GF256elt \<Rightarrow> PGF256 list \<Rightarrow> byte list" where
  "share x Ps = concat (map (\<lambda>P. [bytevalue x, bytevalue (peval P x)]) Ps)"

lemma share_Nil: "share x [] = []"
  by (simp add: share_def)

lemma share_Cons: "share x (P # Ps) = bytevalue x # bytevalue (peval P x) # share x Ps"
  by (simp add: share_def)

lemma length_share: "length (share x Ps) = 2 * length Ps"
  by (induction Ps) (simp_all add: share_Nil share_Cons)

lemma share_nth_even: "t < length Ps \<Longrightarrow> share x Ps ! (2 * t) = bytevalue x"
proof (induction Ps arbitrary: t)
  case Nil
  then show ?case by simp
next
  case (Cons P Ps)
  then show ?case
    by (cases t) (simp_all add: share_Cons)
qed

lemma byte_of_int_to_int: "byte_of_int (to_int a) = bytevalue a"
  by (simp add: byte_of_int_def to_int_def)

lemma length_polys: "length (polys rnd pos k bs) = length bs"
  by (induction bs arbitrary: pos) simp_all

lemma polys_length: "P \<in> set (polys rnd pos k bs) \<Longrightarrow> length P = Suc (nat (k - 1))"
  by (induction bs arbitrary: pos) (auto simp: pickRandomPolynomial_def)

lemma polys_hd: "map hd (polys rnd pos k bs) = map (\<lambda>b. GF256elt (uint b)) bs"
  by (induction bs arbitrary: pos) (simp_all add: pickRandomPolynomial_def)

lemma encodeByte_eq:
  "encodeByte gf_tables rnd pos b n k picks =
     Inr (map (\<lambda>i. share (GF256elt (picks ! i))
                  [fst (pickRandomPolynomial rnd pos (k - 1) (GF256elt (uint b)))]) [0..<n],
          snd (pickRandomPolynomial rnd pos (k - 1) (GF256elt (uint b))))"
proof -
  obtain P pos' where P: "pickRandomPolynomial rnd pos (k - 1) (GF256elt (uint b)) = (P, pos')"
    by (cases "pickRandomPolynomial rnd pos (k - 1) (GF256elt (uint b))")
  then have ne: "P \<noteq> []"
    by (auto simp: pickRandomPolynomial_def)
  have "emap (\<lambda>i. let X = GF256elt (picks ! i)
                  in ebind (PGF256_f gf_tables P X) (\<lambda>Y.
                       Inr [byte_of_int (to_int X), byte_of_int (to_int Y)])) [0..<n]
      = Inr (map (\<lambda>i. share (GF256elt (picks ! i)) [P]) [0..<n])"
    by (rule emap_Inr)
      (simp add: Let_def PGF256_f_peval ne ebind_def byte_of_int_to_int share_Cons share_Nil)
  then show ?thesis
    by (simp add: encodeByte_def P ebind_def)
qed

lemma encode_loop_eq:
  "length outputs = n \<Longrightarrow>
   encode_loop gf_tables rnd pos stream outputs n k picks =
     Inr (map (\<lambda>i. outputs ! i @ share (GF256elt (picks ! i)) (polys rnd pos k stream)) [0..<n])"
proof (induction stream arbitrary: pos outputs)
  case Nil
  have "map ((!) outputs) [0..<length outputs] = outputs"
    by (rule map_nth)
  then show ?case
    using Nil by (simp add: share_Nil)
next
  case (Cons b bs)
  let ?P = "fst (pickRandomPolynomial rnd pos (k - 1) (GF256elt (uint b)))"
  let ?pos = "snd (pickRandomPolynomial rnd pos (k - 1) (GF256elt (uint b)))"
  let ?keys = "map (\<lambda>i. share (GF256elt (picks ! i)) [?P]) [0..<n]"
  let ?outs = "map (\<lambda>i. outputs ! i @ ?keys ! i) [0..<n]"
  have "encode_loop gf_tables rnd pos (b # bs) outputs n k picks
      = encode_loop gf_tables rnd ?pos bs ?outs n k picks"
    by (simp add: encodeByte_eq ebind_def)
  also have "\<dots> = Inr (map (\<lambda>i. ?outs ! i @ share (GF256elt (picks ! i)) (polys rnd ?pos k bs)) [0..<n])"
    by (rule Cons.IH) simp
  also have "map (\<lambda>i. ?outs ! i @ share (GF256elt (picks ! i)) (polys rnd ?pos k bs)) [0..<n]
      = map (\<lambda>i. outputs ! i @ share (GF256elt (picks ! i)) (polys rnd pos k (b # bs))) [0..<n]"
    by (rule map_cong) (simp_all add: share_Cons share_Nil)
  finally show ?case .
qed

section \<open>When the picking loop returns\<close>

text \<open>
  A generator is fair when, from every position on, every value of \<open>[1,255]\<close> is drawn again.
\<close>

definition fair :: "rng \<Rightarrow> bool" where
  "fair rnd \<longleftrightarrow> (\<forall>pos. \<forall>v\<in>{1..255}. \<exists>j. randint rnd (pos + j) 1 255 = v)"

lemma pick_loop_returns:
  "\<not> picked ! nat (randint rnd (pos + j) 1 255) \<Longrightarrow> \<exists>r. pick_loop rnd pos picked = Some r"
proof (induction j arbitrary: pos)
  case 0
  then show ?case
    by (subst pick_loop.simps) (simp add: Let_def)
next
  case (Suc j)
  then have "\<exists>r. pick_loop rnd (Suc pos) picked = Some r"
    by (intro Suc.IH) simp
  then show ?case
    by (subst pick_loop.simps) (simp add: Let_def)
qed

lemma picks_inv_unpicked:
  assumes "picks_inv picked picks" "length picks < 255"
  shows "\<exists>v\<in>{1..255}. \<not> picked ! nat v"
proof (rule ccontr)
  assume "\<not> (\<exists>v\<in>{1..255}. \<not> picked ! nat v)"
  then have "{1..255} \<subseteq> set picks"
    using assms(1) by (auto simp: picks_inv_def)
  then have "card {1..255::int} \<le> card (set picks)"
    by (intro card_mono) simp_all
  also have "\<dots> \<le> length picks"
    by (rule card_length)
  finally show False
    using assms(2) by simp
qed

lemma pick_all_returns:
  assumes "fair rnd" "picks_inv picked picks" "length picks + m \<le> 255"
  shows "\<exists>r. pick_all rnd pos m picked picks = Some r"
  using assms(2,3)
proof (induction m arbitrary: pos picked picks)
  case 0
  show ?case by simp
next
  case (Suc m)
  then obtain v where v: "v \<in> {1..255}" "\<not> picked ! nat v"
    using picks_inv_unpicked [of picked picks] by auto
  then obtain j where "randint rnd (pos + j) 1 255 = v"
    using assms(1) unfolding fair_def by blast
  then have "\<exists>r. pick_loop rnd pos picked = Some r"
    using v(2) by (intro pick_loop_returns [of _ _ _ j]) simp
  then obtain pick p where pl: "pick_loop rnd pos picked = Some (pick, p)"
    by auto
  have "1 \<le> pick \<and> pick \<le> 255 \<and> \<not> picked ! nat pick"
    using pick_loop_Some [OF pl] by simp
  then have "picks_inv (picked[nat pick := True]) (picks @ [pick])"
    using Suc.prems(1) by (simp add: picks_inv_step)
  then have "\<exists>r. pick_all rnd p m (picked[nat pick := True]) (picks @ [pick]) = Some r"
    using Suc.prems(2) by (intro Suc.IH) simp_all
  then show ?case
    using pl by simp
qed

lemma encode_returns:
  assumes "fair rnd" "length outputs \<le> 255"
  shows "\<exists>r. encode T rnd pos stream outputs k = Some r"
proof -
  have "\<exists>r. pick_all rnd pos (length outputs) (replicate 256 False) [] = Some r"
    using assms by (intro pick_all_returns picks_inv_init) simp_all
  then show ?thesis
    by (auto simp: encode_def Let_def)
qed

lemma fair_id: "fair (\<lambda>i. i)"
  unfolding fair_def
proof (intro allI ballI)
  fix pos :: nat and v :: int
  assume v: "v \<in> {1..255}"
  define j where "j = nat v - 1 + 254 * pos"
  have "pos + j = nat v - 1 + 255 * pos"
    by (simp add: j_def)
  then have "(pos + j) mod 255 = nat v - 1"
    using v by auto
  then have "randint (\<lambda>i. i) (pos + j) 1 255 = v"
    using v by (auto simp: randint_def)
  then show "\<exists>j. randint (\<lambda>i. i) (pos + j) 1 255 = v" ..
qed

section \<open>Reconstruction from the shares\<close>

lemma GF256elt_bytevalue: "GF256elt (uint (bytevalue x)) = x"
  using GF256elt_to_int [of x] by (simp add: to_int_def)

lemma bytevalue_GF256elt: "bytevalue (GF256elt (uint b)) = b"
  by (simp add: GF256elt_uint)

lemma read_round_shares:
  "read_round i (map (\<lambda>x. share x (P # Ps)) xs) =
     Inr (Points (map (\<lambda>x. (x, peval P x)) xs) (map (\<lambda>x. share x Ps) xs))"
  by (induction xs arbitrary: i) (simp_all add: share_Cons ebind_def GF256elt_bytevalue)

lemma read_round_done: "xs \<noteq> [] \<Longrightarrow> read_round i (map (\<lambda>x. share x []) xs) = Inr (Eof i)"
  by (cases xs) (simp_all add: share_Nil)

lemma length_foldr_padd_eq:
  "ts \<noteq> [] \<Longrightarrow> (\<And>t. t \<in> set ts \<Longrightarrow> length t = n) \<Longrightarrow> length (foldr padd ts []) = n"
proof (induction ts)
  case Nil
  then show ?case by simp
next
  case (Cons t ts)
  have "length (foldr padd ts []) \<le> n"
    using Cons.prems(2) by (intro length_foldr_padd) simp
  then show ?case
    using Cons.prems(2) by (simp add: length_padd)
qed

lemma lagrange_nonempty: "points \<noteq> [] \<Longrightarrow> lagrange points \<noteq> []"
proof -
  assume ne: "points \<noteq> []"
  have "length (lagrange points) = length points"
    unfolding lagrange_def
    using ne by (intro length_foldr_padd_eq) (auto simp: length_lterm)
  then show ?thesis
    using ne by auto
qed

lemma decode_shares:
  assumes "xs \<noteq> []" "distinct xs" "\<And>P. P \<in> set Ps \<Longrightarrow> P \<noteq> [] \<and> length P \<le> length xs"
  shows "decode gf_tables (map (\<lambda>x. share x Ps) xs) out = Inr (out @ map (\<lambda>P. bytevalue (hd P)) Ps)"
  using assms(3)
proof (induction Ps arbitrary: out)
  case Nil
  show ?case
    by (subst decode.simps) (simp add: read_round_done [OF assms(1)])
next
  case (Cons P Ps)
  let ?pts = "map (\<lambda>x. (x, peval P x)) xs"
  have P: "P \<noteq> []" "length P \<le> length xs"
    using Cons.prems by simp_all
  have i: "interpolate gf_tables ?pts = Inr (lagrange ?pts)"
    and v: "peval (lagrange ?pts) (GF256elt 0) = peval P (GF256elt 0)"
    using interpolate_recovers [OF assms(2,1) P(2)] by simp_all
  have "peval P (GF256elt 0) = hd P"
    using P(1) by (cases P) (simp_all add: zero_GF256elt_def [symmetric])
  then have f: "PGF256_f gf_tables (lagrange ?pts) (GF256elt 0) = Inr (hd P)"
    using v lagrange_nonempty [of ?pts] assms(1) by (simp add: PGF256_f_peval)
  have "decode gf_tables (map (\<lambda>x. share x (P # Ps)) xs) out
      = decode gf_tables (map (\<lambda>x. share x Ps) xs) (out @ [bytevalue (hd P)])"
    by (subst decode.simps) (simp add: read_round_shares i f byte_of_int_to_int)
  also have "\<dots> = Inr ((out @ [bytevalue (hd P)]) @ map (\<lambda>P. bytevalue (hd P)) Ps)"
    using Cons.prems by (intro Cons.IH) simp
  finally show ?case
    by simp
qed

text \<open>The identifiers as field elements and as bytes.\<close>

lemma GF256elt_inj:
  assumes "0 \<le> u" "u < 256" "0 \<le> v" "v < 256" "GF256elt u = GF256elt v"
  shows "u = v"
proof -
  have "to_int (GF256elt u) = u"
    using assms(1,2) by (rule to_int_GF256elt)
  moreover have "to_int (GF256elt v) = v"
    using assms(3,4) by (rule to_int_GF256elt)
  ultimately show ?thesis
    unfolding assms(5) by (rule trans [OF sym])
qed

lemma distinct_identifiers:
  assumes "distinct picks" "set picks \<subseteq> {1..255}"
  shows "distinct (map GF256elt picks)"
proof -
  have "inj_on GF256elt (set picks)"
  proof (rule inj_onI)
    fix u v assume "u \<in> set picks" "v \<in> set picks" "GF256elt u = GF256elt v"
    then show "u = v"
      using assms(2) by (intro GF256elt_inj) auto
  qed
  then show ?thesis
    using assms(1) by (simp add: distinct_map)
qed

lemma distinct_map_nth:
  assumes "distinct ys" "distinct idxs" "set idxs \<subseteq> {..<length ys}"
  shows "distinct (map (\<lambda>i. ys ! i) idxs)"
proof -
  have "inj_on (\<lambda>i. ys ! i) (set idxs)"
  proof (rule inj_onI)
    fix i j assume "i \<in> set idxs" "j \<in> set idxs" "ys ! i = ys ! j"
    then show "i = j"
      using assms(1,3) by (auto simp: distinct_conv_nth)
  qed
  then show ?thesis
    using assms(2) by (simp add: distinct_map)
qed

section \<open>Claims about splitting\<close>

lemma encode_result:
  assumes "encode gf_tables rnd pos stream outputs k = Some r"
  obtains picks p where
    "r = Inr (map (\<lambda>i. outputs ! i @ share (GF256elt (picks ! i)) (polys rnd p k stream))
               [0..<length outputs])"
    "length picks = length outputs" "distinct picks" "set picks \<subseteq> {1..255}"
proof -
  from assms obtain picks p where
    r: "r = encode_loop gf_tables rnd p stream outputs (length outputs) k picks" and
    picks: "length picks = length outputs" "distinct picks" "set picks \<subseteq> {1..255}"
    by (rule encode_picks)
  have "r = Inr (map (\<lambda>i. outputs ! i @ share (GF256elt (picks ! i)) (polys rnd p k stream))
               [0..<length outputs])"
    unfolding r by (rule encode_loop_eq) simp
  then show thesis
    using picks by (rule that)
qed

lemma identifier_bytes:
  assumes "distinct picks" "set picks \<subseteq> {1..255}"
  shows "distinct (map (\<lambda>v. bytevalue (GF256elt v)) picks) \<and>
         0 \<notin> set (map (\<lambda>v. bytevalue (GF256elt v)) picks)"
proof -
  have "inj_on bytevalue (set (map GF256elt picks))"
    by (rule inj_onI) (simp add: GF256elt.expand)
  then have "distinct (map bytevalue (map GF256elt picks))"
    using distinct_identifiers [OF assms] by (simp only: distinct_map)
  then have d: "distinct (map (\<lambda>v. bytevalue (GF256elt v)) picks)"
    by (simp add: comp_def)
  have "bytevalue (GF256elt v) \<noteq> 0" if "v \<in> set picks" for v
  proof
    assume "bytevalue (GF256elt v) = 0"
    then have "GF256elt v = GF256elt 0"
      by (simp add: GF256elt.expand GF256elt_def)
    moreover have "0 \<le> v" "v < 256"
      using that assms(2) by auto
    ultimately have "v = 0"
      by (intro GF256elt_inj) simp_all
    then show False
      using that assms(2) by auto
  qed
  then show ?thesis
    using d by auto
qed

text \<open>
  C8.  If \<open>encode\<close> returns, it returns without error, and what it has appended to the
  \<open>N\<close> sinks are \<open>N\<close> byte sequences \<open>ws\<close> of exactly twice the length of the secret, with
  \<open>N\<close> identifiers \<open>xs\<close>, pairwise distinct and nonzero, the byte at every even position of
  share \<open>i\<close> being its identifier.  It does return for \<open>N \<le> 255\<close> when the generator is fair.
\<close>

theorem encode_shares:
  "(fair rnd \<and> length outputs \<le> 255 \<longrightarrow>
      (\<exists>r. encode gf_tables rnd pos stream outputs k = Some r)) \<and>
   (\<forall>r. encode gf_tables rnd pos stream outputs k = Some r \<longrightarrow>
      (\<exists>xs ws. r = Inr (map (\<lambda>i. outputs ! i @ ws ! i) [0..<length outputs]) \<and>
         length xs = length outputs \<and> length ws = length outputs \<and>
         distinct xs \<and> 0 \<notin> set xs \<and>
         (\<forall>i<length outputs. length (ws ! i) = 2 * length stream \<and>
            (\<forall>t<length stream. ws ! i ! (2 * t) = xs ! i))))"
proof (intro conjI allI impI)
  assume "fair rnd \<and> length outputs \<le> 255"
  then show "\<exists>r. encode gf_tables rnd pos stream outputs k = Some r"
    by (intro encode_returns) simp_all
next
  fix r
  assume "encode gf_tables rnd pos stream outputs k = Some r"
  then obtain picks p where
    r: "r = Inr (map (\<lambda>i. outputs ! i @ share (GF256elt (picks ! i)) (polys rnd p k stream))
               [0..<length outputs])" and
    picks: "length picks = length outputs" "distinct picks" "set picks \<subseteq> {1..255}"
    by (rule encode_result)
  define n where "n = length outputs"
  define Ps where "Ps = polys rnd p k stream"
  define xs where "xs = map (\<lambda>v. bytevalue (GF256elt v)) picks"
  define ws where "ws = map (\<lambda>i. share (GF256elt (picks ! i)) Ps) [0..<n]"
  have "map (\<lambda>i. outputs ! i @ share (GF256elt (picks ! i)) Ps) [0..<n]
      = map (\<lambda>i. outputs ! i @ ws ! i) [0..<n]"
    by (rule map_cong) (simp_all add: ws_def)
  then have 1: "r = Inr (map (\<lambda>i. outputs ! i @ ws ! i) [0..<length outputs])"
    using r by (simp add: n_def Ps_def)
  have 2: "length xs = length outputs" "length ws = length outputs"
    using picks(1) by (simp_all add: xs_def ws_def n_def)
  have 3: "distinct xs \<and> 0 \<notin> set xs"
    unfolding xs_def using picks(2,3) by (rule identifier_bytes)
  have 4: "length (ws ! i) = 2 * length stream \<and>
      (\<forall>t<length stream. ws ! i ! (2 * t) = xs ! i)" if "i < length outputs" for i
    using that picks(1)
    by (simp add: ws_def xs_def n_def Ps_def length_share length_polys share_nth_even)
  show "\<exists>xs ws. r = Inr (map (\<lambda>i. outputs ! i @ ws ! i) [0..<length outputs]) \<and>
         length xs = length outputs \<and> length ws = length outputs \<and>
         distinct xs \<and> 0 \<notin> set xs \<and>
         (\<forall>i<length outputs. length (ws ! i) = 2 * length stream \<and>
            (\<forall>t<length stream. ws ! i ! (2 * t) = xs ! i))"
    using 1 2 3 4 by blast
qed

text \<open>The theorem at three empty sinks, a secret of two bytes and threshold 2.\<close>

theorem encode_shares_witness:
  "fair (\<lambda>i. i) \<and> length [[], [], [] :: byte list] \<le> 255 \<and>
   encode gf_tables (\<lambda>i. i) 0 [0x41, 0x42] [[], [], []] 2
     = Some (Inr [[1, 66, 1, 70], [2, 71, 2, 74], [3, 68, 3, 78]]) \<and>
   (\<exists>xs ws. (Inr [[1, 66, 1, 70], [2, 71, 2, 74], [3, 68, 3, 78]] :: error + byte list list)
        = Inr (map (\<lambda>i. [[], [], []] ! i @ ws ! i) [0..<length [[], [], [] :: byte list]]) \<and>
      length xs = length [[], [], [] :: byte list] \<and>
      length ws = length [[], [], [] :: byte list] \<and>
      distinct xs \<and> 0 \<notin> set xs \<and>
      (\<forall>i<length [[], [], [] :: byte list].
         length (ws ! i) = 2 * length [0x41, 0x42 :: byte] \<and>
         (\<forall>t<length [0x41, 0x42 :: byte]. ws ! i ! (2 * t) = xs ! i)))"
proof -
  have e: "encode gf_tables (\<lambda>i. i) 0 [0x41, 0x42] [[], [], []] 2
     = Some (Inr [[1, 66, 1, 70], [2, 71, 2, 74], [3, 68, 3, 78]])"
    by code_simp
  have l: "length [[], [], [] :: byte list] \<le> 255"
    by simp
  have "\<forall>r. encode gf_tables (\<lambda>i. i) 0 [0x41, 0x42] [[], [], []] 2 = Some r \<longrightarrow>
      (\<exists>xs ws. r = Inr (map (\<lambda>i. [[], [], []] ! i @ ws ! i) [0..<length [[], [], [] :: byte list]]) \<and>
         length xs = length [[], [], [] :: byte list] \<and> length ws = length [[], [], [] :: byte list] \<and>
         distinct xs \<and> 0 \<notin> set xs \<and>
         (\<forall>i<length [[], [], [] :: byte list]. length (ws ! i) = 2 * length [0x41, 0x42 :: byte] \<and>
            (\<forall>t<length [0x41, 0x42 :: byte]. ws ! i ! (2 * t) = xs ! i)))"
    using encode_shares [of "\<lambda>i. i" "[[], [], []]" 0 "[0x41, 0x42]" 2] by (rule conjunct2)
  then have q: "(\<exists>xs ws. (Inr [[1, 66, 1, 70], [2, 71, 2, 74], [3, 68, 3, 78]] :: error + byte list list)
        = Inr (map (\<lambda>i. [[], [], []] ! i @ ws ! i) [0..<length [[], [], [] :: byte list]]) \<and>
      length xs = length [[], [], [] :: byte list] \<and>
      length ws = length [[], [], [] :: byte list] \<and>
      distinct xs \<and> 0 \<notin> set xs \<and>
      (\<forall>i<length [[], [], [] :: byte list].
         length (ws ! i) = 2 * length [0x41, 0x42 :: byte] \<and>
         (\<forall>t<length [0x41, 0x42 :: byte]. ws ! i ! (2 * t) = xs ! i)))"
    using e by blast
  show ?thesis
    by (intro conjI fair_id l e q)
qed

text \<open>
  C4 (amended).  \<open>encode\<close> validates nothing and never fails with an error, whatever \<open>K\<close> is:
  with more than 255 sinks it does not return, and with at most 255 sinks and a fair
  generator it returns share output.
\<close>

theorem encode_no_validation:
  "(\<forall>e. encode gf_tables rnd pos stream outputs k \<noteq> Some (Inl e)) \<and>
   (length outputs > 255 \<longrightarrow> encode gf_tables rnd pos stream outputs k = None) \<and>
   (fair rnd \<and> length outputs \<le> 255 \<longrightarrow>
      (\<exists>outs. encode gf_tables rnd pos stream outputs k = Some (Inr outs)))"
proof (intro conjI allI impI)
  fix e
  show "encode gf_tables rnd pos stream outputs k \<noteq> Some (Inl e)"
  proof
    assume "encode gf_tables rnd pos stream outputs k = Some (Inl e)"
    then show False
      by (rule encode_result) simp
  qed
next
  assume n: "length outputs > 255"
  show "encode gf_tables rnd pos stream outputs k = None"
  proof (rule ccontr)
    assume "encode gf_tables rnd pos stream outputs k \<noteq> None"
    then obtain r where "encode gf_tables rnd pos stream outputs k = Some r"
      by blast
    then have "length outputs \<le> 255"
      by (rule encode_picks)
    then show False
      using n by simp
  qed
next
  assume "fair rnd \<and> length outputs \<le> 255"
  then obtain r where r: "encode gf_tables rnd pos stream outputs k = Some r"
    using encode_returns [of rnd outputs gf_tables pos stream k] by blast
  then obtain outs where "r = Inr outs"
    by (rule encode_result) simp
  then show "\<exists>outs. encode gf_tables rnd pos stream outputs k = Some (Inr outs)"
    using r by blast
qed

text \<open>The theorem at threshold 0 and three sinks.\<close>

theorem encode_no_validation_witness:
  "fair (\<lambda>i. i) \<and> length [[], [], [] :: byte list] \<le> 255 \<and>
   (\<exists>outs. encode gf_tables (\<lambda>i. i) 0 [0x41, 0x42] [[], [], []] 0 = Some (Inr outs))"
proof -
  have "fair (\<lambda>i. i) \<and> length [[], [], [] :: byte list] \<le> 255"
    using fair_id by simp
  then show ?thesis
    using encode_no_validation [of "\<lambda>i. i" 0 "[0x41, 0x42]" "[[], [], []]" 0] by blast
qed

text \<open>
  C4 as stated fails: with \<open>K = 0 < 1\<close> and three sinks, and with \<open>K = 3 > N = 2\<close>, \<open>encode\<close>
  raises nothing and writes shares (for \<open>K = 0\<close> every Y byte is the secret byte itself).
\<close>

theorem encode_accepts_invalid_threshold:
  "encode gf_tables (\<lambda>i. i) 0 [0x41, 0x42] [[], [], []] 0
     = Some (Inr [[1, 65, 1, 66], [2, 65, 2, 66], [3, 65, 3, 66]]) \<and>
   encode gf_tables (\<lambda>i. i) 0 [0x41, 0x42] [[], []] 3
     = Some (Inr [[1, 64, 1, 67], [2, 73, 2, 94]])"
  by code_simp

text \<open>
  C1.  Let \<open>2 \<le> K \<le> N \<le> 255\<close>, the \<open>N\<close> sinks be empty and \<open>idxs\<close> name \<open>K\<close> different shares,
  in any order.  Whatever the generator draws, if \<open>encode\<close> returns it returns \<open>N\<close> share
  streams without error, and \<open>decode\<close> on the \<open>K\<close> chosen streams returns exactly the secret.
  \<open>encode\<close> does return when the generator is fair.
\<close>

theorem split_reconstruct:
  assumes "2 \<le> k" "k \<le> int (length outputs)" "length outputs \<le> 255"
    "set outputs \<subseteq> {[]}"
    "distinct idxs" "set idxs \<subseteq> {..<length outputs}" "int (length idxs) = k"
  shows "(fair rnd \<longrightarrow> (\<exists>r. encode gf_tables rnd pos S outputs k = Some r)) \<and>
         (\<forall>r. encode gf_tables rnd pos S outputs k = Some r \<longrightarrow>
            (\<exists>outs. r = Inr outs \<and> length outs = length outputs \<and>
               decode gf_tables (map (\<lambda>i. outs ! i) idxs) [] = Inr S))"
proof (intro conjI allI impI)
  assume "fair rnd"
  then show "\<exists>r. encode gf_tables rnd pos S outputs k = Some r"
    using assms(3) by (rule encode_returns)
next
  fix r
  assume "encode gf_tables rnd pos S outputs k = Some r"
  then obtain picks p where
    r: "r = Inr (map (\<lambda>i. outputs ! i @ share (GF256elt (picks ! i)) (polys rnd p k S))
               [0..<length outputs])" and
    picks: "length picks = length outputs" "distinct picks" "set picks \<subseteq> {1..255}"
    by (rule encode_result)
  define Ps where "Ps = polys rnd p k S"
  define outs where
    "outs = map (\<lambda>i. outputs ! i @ share (GF256elt (picks ! i)) Ps) [0..<length outputs]"
  define xs where "xs = map (\<lambda>i. map GF256elt picks ! i) idxs"
  have lx: "length xs = nat k"
    using assms(7) by (simp add: xs_def)
  have ne: "xs \<noteq> []"
    using lx assms(1) by auto
  have dx: "distinct xs"
    unfolding xs_def
    using distinct_identifiers [OF picks(2,3)] assms(5,6) picks(1)
    by (intro distinct_map_nth) simp_all
  have Ps: "P \<noteq> [] \<and> length P \<le> length xs" if "P \<in> set Ps" for P
  proof -
    have "length P = Suc (nat (k - 1))"
      using that unfolding Ps_def by (rule polys_length)
    then show ?thesis
      using lx assms(1) by auto
  qed
  have "outs ! i = share (map GF256elt picks ! i) Ps" if "i \<in> set idxs" for i
  proof -
    have i: "i < length outputs"
      using that assms(6) by auto
    then have "outputs ! i \<in> set outputs"
      by simp
    then have "outputs ! i = []"
      using assms(4) by auto
    then show ?thesis
      using i picks(1) by (simp add: outs_def)
  qed
  then have "map (\<lambda>i. outs ! i) idxs = map (\<lambda>x. share x Ps) xs"
    by (simp add: xs_def)
  then have "decode gf_tables (map (\<lambda>i. outs ! i) idxs) []
      = Inr ([] @ map (\<lambda>P. bytevalue (hd P)) Ps)"
    using decode_shares [OF ne dx Ps] by simp
  also have "map (\<lambda>P. bytevalue (hd P)) Ps = map bytevalue (map hd Ps)"
    by simp
  also have "\<dots> = S"
    unfolding Ps_def polys_hd by (simp add: bytevalue_GF256elt comp_def)
  finally have "decode gf_tables (map (\<lambda>i. outs ! i) idxs) [] = Inr S"
    by simp
  moreover have "r = Inr outs" "length outs = length outputs"
    using r by (simp_all add: outs_def Ps_def)
  ultimately show "\<exists>outs. r = Inr outs \<and> length outs = length outputs \<and>
      decode gf_tables (map (\<lambda>i. outs ! i) idxs) [] = Inr S"
    by blast
qed

text \<open>
  The theorem at \<open>K = 2\<close>, \<open>N = 3\<close>, the secret \<open>AB\<close> and the shares 2 and 0, in that order.
\<close>

theorem split_reconstruct_witness:
  "2 \<le> int (length [[], [], [] :: byte list]) \<and> distinct [2, 0 :: nat] \<and> fair (\<lambda>i. i) \<and>
   encode gf_tables (\<lambda>i. i) 0 [0x41, 0x42] [[], [], []] 2
     = Some (Inr [[1, 66, 1, 70], [2, 71, 2, 74], [3, 68, 3, 78]]) \<and>
   decode gf_tables [[3, 68, 3, 78], [1, 66, 1, 70]] [] = Inr [0x41, 0x42]"
proof -
  have e: "encode gf_tables (\<lambda>i. i) 0 [0x41, 0x42] [[], [], []] 2
     = Some (Inr [[1, 66, 1, 70], [2, 71, 2, 74], [3, 68, 3, 78]])"
    by code_simp
  have "\<forall>r. encode gf_tables (\<lambda>i. i) 0 [0x41, 0x42] [[], [], []] 2 = Some r \<longrightarrow>
      (\<exists>outs. r = Inr outs \<and> length outs = length [[], [], [] :: byte list] \<and>
         decode gf_tables (map (\<lambda>i. outs ! i) [2, 0]) [] = Inr [0x41, 0x42])"
    by (rule split_reconstruct [of 2 "[[], [], []]" "[2, 0]" "\<lambda>i. i" 0 "[0x41, 0x42]",
          THEN conjunct2]) simp_all
  then obtain outs where
    "(Inr [[1, 66, 1, 70], [2, 71, 2, 74], [3, 68, 3, 78]] :: error + byte list list) = Inr outs"
    "decode gf_tables (map (\<lambda>i. outs ! i) [2, 0]) [] = Inr [0x41, 0x42]"
    using e by blast
  then have "decode gf_tables [[3, 68, 3, 78], [1, 66, 1, 70]] [] = Inr [0x41, 0x42]"
    by auto
  then show ?thesis
    using e fair_id by simp
qed

end
